theory Spec2Isabelle
  imports Main "HOL-Library.Word"
begin

unbundle bit_operations_syntax

section \<open>The cipher of crypto_scheme.py\<close>

text \<open>
  The three functions of \<^verbatim>\<open>src/crypto_scheme.py\<close>: \<^verbatim>\<open>GEN\<close> (lines 11-42),
  \<^verbatim>\<open>ENC\<close> (lines 45-77) and \<^verbatim>\<open>DEC\<close> (lines 80-112). Python integers are
  \<^typ>\<open>int\<close>, list indices and lengths are \<^typ>\<open>nat\<close>, a Python list of integers is an
  \<^typ>\<open>int list\<close>, a Python string is the list of its code points, and an exception is
  the left summand of the result.
\<close>

subsection \<open>Exceptions\<close>

text \<open>
  \<^verbatim>\<open>ValueError\<close> is raised by the length checks (lines 57-58 and 92-93);
  \<^verbatim>\<open>ZeroDivisionError\<close> is what Python raises for \<^verbatim>\<open>x % 0\<close> (lines 66 and 108);
  \<^verbatim>\<open>UnicodeEncodeError\<close> is what \<^verbatim>\<open>str.encode()\<close> raises for a string that UTF-8
  cannot encode (lines 25 and 33).
\<close>

datatype py_error = ValueError | ZeroDivisionError | UnicodeEncodeError

subsection \<open>The rounds of ENC and DEC\<close>

text \<open>
  Lines 67-68 and 109-110: \<^verbatim>\<open>for i in range(n): C[i] ^= K[(i + shift) % n]\<close>,
  an update of the buffer in place, position by position.
\<close>

definition xor_key :: "int list \<Rightarrow> nat \<Rightarrow> nat \<Rightarrow> int list \<Rightarrow> int list" where
  "xor_key K n shift C =
     fold (\<lambda>i C. C[i := (C ! i) XOR (K ! ((i + shift) mod n))]) [0..<n] C"

text \<open>Lines 72 and 102: \<^verbatim>\<open>mult = 3 if n % 3 != 0 else 5\<close>.\<close>

definition mult :: "nat \<Rightarrow> nat" where
  "mult n = (if n mod 3 \<noteq> 0 then 3 else 5)"

text \<open>Lines 74 and 104: \<^verbatim>\<open>new_pos = (i * mult + r * 7) % n\<close>.\<close>

definition new_pos :: "nat \<Rightarrow> nat \<Rightarrow> nat \<Rightarrow> nat" where
  "new_pos n r i = (i * mult n + r * 7) mod n"

text \<open>
  Lines 71-75: \<^verbatim>\<open>C_temp = C.copy()\<close>, then
  \<^verbatim>\<open>for i in range(n): C[new_pos] = C_temp[i]\<close>. The writes go into the buffer itself,
  so a position that no \<^verbatim>\<open>i\<close> maps to keeps its value, and of two \<^verbatim>\<open>i\<close> that map to
  one position the later one wins.
\<close>

definition permute :: "nat \<Rightarrow> nat \<Rightarrow> int list \<Rightarrow> int list" where
  "permute n r C =
     (let C_temp = C
      in fold (\<lambda>i C. C[new_pos n r i := C_temp ! i]) [0..<n] C)"

text \<open>
  Lines 101-105: \<^verbatim>\<open>M_temp = M.copy()\<close>, then
  \<^verbatim>\<open>for i in range(n): M[i] = M_temp[new_pos]\<close>.
\<close>

definition unpermute :: "nat \<Rightarrow> nat \<Rightarrow> int list \<Rightarrow> int list" where
  "unpermute n r M =
     (let M_temp = M
      in fold (\<lambda>i M. M[i := M_temp ! (new_pos n r i)]) [0..<n] M)"

text \<open>
  The body of the loop of \<^verbatim>\<open>ENC\<close> (lines 65-75). Its first statement is
  \<^verbatim>\<open>shift = (r * 11) % n\<close>, which raises when \<^verbatim>\<open>n\<close> is 0.
\<close>

definition enc_round :: "int list \<Rightarrow> nat \<Rightarrow> nat \<Rightarrow> int list \<Rightarrow> py_error + int list" where
  "enc_round K n r C =
     (if n = 0 then Inl ZeroDivisionError
      else let shift = (r * 11) mod n;
               C = xor_key K n shift C
           in Inr (permute n r C))"

text \<open>
  The body of the loop of \<^verbatim>\<open>DEC\<close> (lines 100-110). The permutation is undone first;
  its \<^verbatim>\<open>% n\<close> sits inside a loop that does not run when \<^verbatim>\<open>n\<close> is 0, so the first
  division by \<^verbatim>\<open>n\<close> that is evaluated is the one of line 108.
\<close>

definition dec_round :: "int list \<Rightarrow> nat \<Rightarrow> nat \<Rightarrow> int list \<Rightarrow> py_error + int list" where
  "dec_round K n r M =
     (let M = unpermute n r M
      in if n = 0 then Inl ZeroDivisionError
         else let shift = (r * 11) mod n
              in Inr (xor_key K n shift M))"

text \<open>
  A \<^verbatim>\<open>for r in ...\<close> loop over the rounds: the body runs once for each round, in the
  order given, and an exception ends the loop.
\<close>

fun for_rounds :: "(nat \<Rightarrow> int list \<Rightarrow> py_error + int list) \<Rightarrow> nat list \<Rightarrow> int list
    \<Rightarrow> py_error + int list" where
  "for_rounds body [] C = Inr C"
| "for_rounds body (r # rs) C =
     (case body r C of Inl e \<Rightarrow> Inl e | Inr C' \<Rightarrow> for_rounds body rs C')"

subsection \<open>ENC and DEC\<close>

text \<open>Lines 57-77. \<^verbatim>\<open>range(rounds)\<close> is \<open>[0..<6]\<close>.\<close>

definition ENC :: "int list \<Rightarrow> int list \<Rightarrow> py_error + int list" where
  "ENC K M =
     (if length K \<noteq> length M then Inl ValueError
      else let n = length M; C = M; rounds = 6
           in for_rounds (enc_round K n) [0..<rounds] C)"

text \<open>Lines 92-112. \<^verbatim>\<open>range(rounds - 1, -1, -1)\<close> is \<open>[5, 4, 3, 2, 1, 0]\<close>.\<close>

definition DEC :: "int list \<Rightarrow> int list \<Rightarrow> py_error + int list" where
  "DEC K C =
     (if length K \<noteq> length C then Inl ValueError
      else let n = length C; M = C; rounds = 6
           in for_rounds (dec_round K n) (rev [0..<rounds]) M)"

subsection \<open>GEN\<close>

text \<open>
  A Python \<^verbatim>\<open>str\<close> is a sequence of code points, each an integer from 0 to
  \<open>0x10FFFF\<close>; \<^verbatim>\<open>len(seed)\<close> counts code points, so it is \<^term>\<open>length seed\<close>.
\<close>

type_synonym byte = "8 word"

type_synonym py_str = "int list"

text \<open>
  \<^verbatim>\<open>s.encode()\<close>, with Python's defaults: UTF-8, errors \<^verbatim>\<open>'strict'\<close>. A code point
  from \<open>0xD800\<close> to \<open>0xDFFF\<close> (a lone surrogate) has no UTF-8 encoding, and
  \<^verbatim>\<open>encode\<close> raises \<^verbatim>\<open>UnicodeEncodeError\<close> for a string that contains one.
\<close>

definition encode_char :: "int \<Rightarrow> py_error + byte list" where
  "encode_char c =
     (if c < 0x80 then Inr [word_of_int c]
      else if c < 0x800 then Inr [word_of_int (0xC0 + c div 64), word_of_int (0x80 + c mod 64)]
      else if 0xD800 \<le> c \<and> c \<le> 0xDFFF then Inl UnicodeEncodeError
      else if c < 0x10000
        then Inr [word_of_int (0xE0 + c div 4096), word_of_int (0x80 + c div 64 mod 64),
                  word_of_int (0x80 + c mod 64)]
      else Inr [word_of_int (0xF0 + c div 262144), word_of_int (0x80 + c div 4096 mod 64),
                word_of_int (0x80 + c div 64 mod 64), word_of_int (0x80 + c mod 64)])"

fun encode :: "py_str \<Rightarrow> py_error + byte list" where
  "encode [] = Inr []"
| "encode (c # cs) =
     (case encode_char c of
        Inl e \<Rightarrow> Inl e
      | Inr bs \<Rightarrow> (case encode cs of Inl e \<Rightarrow> Inl e | Inr rest \<Rightarrow> Inr (bs @ rest)))"

text \<open>
  \<^verbatim>\<open>hashlib.sha256\<close> belongs to the Python library, not to this repository, so the hash
  is a parameter \<open>H\<close> of the model, from the bytes hashed to the bytes of the digest.
  Lines 25-26 and 33-34: \<^verbatim>\<open>hashlib.sha256(s.encode()).digest()\<close>, which raises what
  \<^verbatim>\<open>s.encode()\<close> raises.
\<close>

definition sha256_digest :: "(byte list \<Rightarrow> byte list) \<Rightarrow> py_str \<Rightarrow> py_error + byte list" where
  "sha256_digest H s = (case encode s of Inl e \<Rightarrow> Inl e | Inr bs \<Rightarrow> Inr (H bs))"

text \<open>\<^verbatim>\<open>str(counter)\<close> for a counter that is never negative: its decimal digits.\<close>

definition digit_char :: "nat \<Rightarrow> int" where
  "digit_char d = 48 + int d"

fun str :: "nat \<Rightarrow> py_str" where
  "str n = (if n < 10 then [digit_char n] else str (n div 10) @ [digit_char (n mod 10)])"

declare str.simps [simp del]

text \<open>
  Lines 37-39: \<^verbatim>\<open>for i in range(8): if len(key_bits) < key_len:
  key_bits.append((byte >> (7 - i)) & 1)\<close>. A byte read from a \<^verbatim>\<open>bytes\<close> object is a
  Python integer between 0 and 255.
\<close>

definition append_byte :: "nat \<Rightarrow> byte \<Rightarrow> int list \<Rightarrow> int list" where
  "append_byte key_len b key_bits =
     fold (\<lambda>i key_bits.
             if length key_bits < key_len
             then key_bits @ [drop_bit (7 - i) (uint b) AND 1]
             else key_bits)
          [0..<8] key_bits"

text \<open>Lines 36-39: \<^verbatim>\<open>for byte in hash_bytes: ...\<close>.\<close>

definition append_digest :: "nat \<Rightarrow> byte list \<Rightarrow> int list \<Rightarrow> int list" where
  "append_digest key_len hash_bytes key_bits =
     fold (append_byte key_len) hash_bytes key_bits"

text \<open>
  Lines 31-40, the \<^verbatim>\<open>while\<close> loop, on its variables \<^verbatim>\<open>hash_bytes\<close>,
  \<^verbatim>\<open>key_bits\<close> and \<^verbatim>\<open>counter\<close>. An exception raised by line 33 ends the loop and
  is the result. Nothing in the loop itself bounds the number of passes (a pass over an
  empty digest appends nothing), so the loop is a partial function: \<open>None\<close> is a loop that
  never ends.
\<close>

partial_function (option) gen_loop ::
  "(byte list \<Rightarrow> byte list) \<Rightarrow> py_str \<Rightarrow> nat \<Rightarrow> byte list \<Rightarrow> int list \<Rightarrow> nat
     \<Rightarrow> (py_error + int list) option" where
  "gen_loop H seed key_len hash_bytes key_bits counter =
     (if length key_bits < key_len
      then let digest = (if counter > 0 then sha256_digest H (seed @ str counter)
                         else Inr hash_bytes)
           in if isl digest then Some (Inl (projl digest))
              else let hash_bytes = projr digest;
                       key_bits = append_digest key_len hash_bytes key_bits
                   in gen_loop H seed key_len hash_bytes key_bits (counter + 1)
      else Some (Inr key_bits))"

declare gen_loop.simps [code]

text \<open>
  Lines 22-42. Line 25 hashes the seed before the loop, and raises if the seed cannot be
  encoded. \<^verbatim>\<open>key_bits[:key_len]\<close> is \<^term>\<open>take key_len key_bits\<close>.
\<close>

definition GEN :: "(byte list \<Rightarrow> byte list) \<Rightarrow> py_str \<Rightarrow> (py_error + int list) option" where
  "GEN H seed =
     (let seed_len = length seed;
          key_len = 4 * seed_len;
          digest = sha256_digest H seed
      in if isl digest then Some (Inl (projl digest))
         else let hash_bytes = projr digest
              in map_option (map_sum id (take key_len))
                   (gen_loop H seed key_len hash_bytes [] 0))"

subsection \<open>ENC and DEC on a store of list objects\<close>

text \<open>
  A Python list is an object, and \<^verbatim>\<open>ENC\<close> and \<^verbatim>\<open>DEC\<close> receive references to the
  lists of their caller. To say what a call does to those lists, the same code is modelled
  once more on an explicit store: a \<open>heap\<close> is the list of all list objects, an address is
  a position in it, and \<^verbatim>\<open>xs.copy()\<close> allocates a new object at the end of the store.
\<close>

type_synonym addr = nat

type_synonym heap = "int list list"

text \<open>\<^verbatim>\<open>xs.copy()\<close>: a new list object with the elements of the one at address \<open>a\<close>.\<close>

definition copy :: "addr \<Rightarrow> heap \<Rightarrow> addr \<times> heap" where
  "copy a h = (length h, h @ [h ! a])"

text \<open>
  Lines 67-68 and 109-110, on the objects at the addresses \<open>K\<close> and \<open>C\<close>:
  \<^verbatim>\<open>C[i] ^= K[(i + shift) % n]\<close> reads both objects and writes the one at \<open>C\<close>.
\<close>

definition xor_key_h :: "addr \<Rightarrow> nat \<Rightarrow> nat \<Rightarrow> addr \<Rightarrow> heap \<Rightarrow> heap" where
  "xor_key_h K n shift C h =
     fold (\<lambda>i h. h[C := (h ! C)[i := (h ! C ! i) XOR (h ! K ! ((i + shift) mod n))]]) [0..<n] h"

text \<open>Lines 71-75: the copy \<^verbatim>\<open>C_temp\<close> is a new object, the writes go to \<open>C\<close>.\<close>

definition permute_h :: "nat \<Rightarrow> nat \<Rightarrow> addr \<Rightarrow> heap \<Rightarrow> heap" where
  "permute_h n r C h =
     (let (C_temp, h) = copy C h
      in fold (\<lambda>i h. h[C := (h ! C)[new_pos n r i := h ! C_temp ! i]]) [0..<n] h)"

text \<open>Lines 101-105: the copy \<^verbatim>\<open>M_temp\<close> is a new object, the writes go to \<open>M\<close>.\<close>

definition unpermute_h :: "nat \<Rightarrow> nat \<Rightarrow> addr \<Rightarrow> heap \<Rightarrow> heap" where
  "unpermute_h n r M h =
     (let (M_temp, h) = copy M h
      in fold (\<lambda>i h. h[M := (h ! M)[i := h ! M_temp ! (new_pos n r i)]]) [0..<n] h)"

text \<open>The loop bodies (lines 65-75 and 100-110); \<open>Some e\<close> is a raised exception.\<close>

definition enc_round_h :: "addr \<Rightarrow> nat \<Rightarrow> addr \<Rightarrow> nat \<Rightarrow> heap \<Rightarrow> py_error option \<times> heap" where
  "enc_round_h K n C r h =
     (if n = 0 then (Some ZeroDivisionError, h)
      else let shift = (r * 11) mod n;
               h = xor_key_h K n shift C h;
               h = permute_h n r C h
           in (None, h))"

definition dec_round_h :: "addr \<Rightarrow> nat \<Rightarrow> addr \<Rightarrow> nat \<Rightarrow> heap \<Rightarrow> py_error option \<times> heap" where
  "dec_round_h K n M r h =
     (let h = unpermute_h n r M h
      in if n = 0 then (Some ZeroDivisionError, h)
         else let shift = (r * 11) mod n;
                  h = xor_key_h K n shift M h
              in (None, h))"

fun for_rounds_h :: "(nat \<Rightarrow> heap \<Rightarrow> py_error option \<times> heap) \<Rightarrow> nat list \<Rightarrow> heap
    \<Rightarrow> py_error option \<times> heap" where
  "for_rounds_h body [] h = (None, h)"
| "for_rounds_h body (r # rs) h =
     (case body r h of (Some e, h') \<Rightarrow> (Some e, h') | (None, h') \<Rightarrow> for_rounds_h body rs h')"

text \<open>
  Lines 57-77: \<^verbatim>\<open>C = M.copy()\<close> allocates the buffer, and its address is returned.
\<close>

definition ENC_h :: "addr \<Rightarrow> addr \<Rightarrow> heap \<Rightarrow> (py_error + addr) \<times> heap" where
  "ENC_h K M h =
     (if length (h ! K) \<noteq> length (h ! M) then (Inl ValueError, h)
      else let n = length (h ! M); (C, h) = copy M h; rounds = 6
           in case for_rounds_h (enc_round_h K n C) [0..<rounds] h of
                (Some e, h') \<Rightarrow> (Inl e, h')
              | (None, h') \<Rightarrow> (Inr C, h'))"

text \<open>Lines 92-112, with \<^verbatim>\<open>M = C.copy()\<close>.\<close>

definition DEC_h :: "addr \<Rightarrow> addr \<Rightarrow> heap \<Rightarrow> (py_error + addr) \<times> heap" where
  "DEC_h K C h =
     (if length (h ! K) \<noteq> length (h ! C) then (Inl ValueError, h)
      else let n = length (h ! C); (M, h) = copy C h; rounds = 6
           in case for_rounds_h (dec_round_h K n M) (rev [0..<rounds]) h of
                (Some e, h') \<Rightarrow> (Inl e, h')
              | (None, h') \<Rightarrow> (Inr M, h'))"

section \<open>The specification's notions\<close>

subsection \<open>The key stream of the KeyExpander\<close>

text \<open>
  A seed that UTF-8 can encode: none of its code points is a lone surrogate. For such a
  seed \<open>utf8\<close> gives the bytes that are hashed.
\<close>

definition encodable :: "py_str \<Rightarrow> bool" where
  "encodable s = list_all (\<lambda>c. \<not> (0xD800 \<le> c \<and> c \<le> 0xDFFF)) s"

definition utf8 :: "py_str \<Rightarrow> byte list" where
  "utf8 s = (case encode s of Inr bs \<Rightarrow> bs | Inl e \<Rightarrow> [])"

text \<open>
  The specification describes the key as a prefix of a stream of bits: block 0 is the digest
  of the seed alone, block \<open>counter\<close> (for \<open>counter\<close> = 1, 2, ...) is the digest of the seed
  followed by the decimal digits of the counter, and each byte of a digest contributes its
  bits from bit 7 down to bit 0.
\<close>

definition block_input :: "py_str \<Rightarrow> nat \<Rightarrow> py_str" where
  "block_input seed counter = (if counter = 0 then seed else seed @ str counter)"

definition msb_first :: "byte \<Rightarrow> int list" where
  "msb_first b = map (\<lambda>j. if bit b j then 1 else 0) [7, 6, 5, 4, 3, 2, 1, 0]"

definition block_bits :: "(byte list \<Rightarrow> byte list) \<Rightarrow> py_str \<Rightarrow> nat \<Rightarrow> int list" where
  "block_bits H seed counter = concat (map msb_first (H (utf8 (block_input seed counter))))"

definition key_stream :: "(byte list \<Rightarrow> byte list) \<Rightarrow> py_str \<Rightarrow> nat \<Rightarrow> int list" where
  "key_stream H seed k = concat (map (block_bits H seed) [0..<k])"

subsection \<open>Concrete inputs\<close>

text \<open>
  The Python string with the characters of a string literal, and a stand-in for the hash
  to run \<^const>\<open>GEN\<close> on: its digests have 32 bytes, as those of SHA-256 have, and they
  depend on the length and on the last byte of what is hashed, so that the blocks of one
  seed differ.
\<close>

definition py_str :: "string \<Rightarrow> py_str" where
  "py_str s = map of_char s"

definition toy_hash :: "byte list \<Rightarrow> byte list" where
  "toy_hash bs = map (\<lambda>j. of_nat (length bs + 3 * j) + last (0 # bs)) [0..<32]"

subsection \<open>Bitwise XOR of sequences, and position re-indexing\<close>

text \<open>The bitwise XOR of two sequences of the same length.\<close>

definition xor_lists :: "int list \<Rightarrow> int list \<Rightarrow> int list" where
  "xor_lists A B = map2 (XOR) A B"

text \<open>
  \<open>perm_src n r ! j\<close> is the position whose value the permutation step of round \<open>r\<close>
  leaves at position \<open>j\<close>: the step run on the positions themselves. \<open>enc_src n ! j\<close> is
  the same for the six rounds together.
\<close>

definition perm_src :: "nat \<Rightarrow> nat \<Rightarrow> nat list" where
  "perm_src n r = fold (\<lambda>i S. S[new_pos n r i := i]) [0..<n] [0..<n]"

definition enc_src :: "nat \<Rightarrow> nat list" where
  "enc_src n = fold (\<lambda>r S. map ((!) S) (perm_src n r)) [0..<6] [0..<n]"

text \<open>
  What a step on the store has to do with the step on values: the store only grows, no
  object other than the buffer at \<open>C\<close> changes, and the buffer holds the value that the
  step on values computes (or both raise the same exception).
\<close>

definition refines_step :: "addr \<Rightarrow> heap \<Rightarrow> py_error option \<times> heap
    \<Rightarrow> (py_error + int list) \<Rightarrow> bool" where
  "refines_step C h res pure =
     (case res of (eo, h') \<Rightarrow>
        length h \<le> length h' \<and> (\<forall>a<length h. a \<noteq> C \<longrightarrow> h' ! a = h ! a) \<and>
        (case eo of None \<Rightarrow> pure = Inr (h' ! C) | Some e \<Rightarrow> pure = Inl e))"

section \<open>Properties of the rounds\<close>

subsection \<open>The loops as maps\<close>

lemma length_fold_update:
  "length (fold (\<lambda>i C. C[p i := v i C]) is C) = length C"
  by (induction "is" arbitrary: C) simp_all

lemma length_xor_key: "length (xor_key K n s C) = length C"
  unfolding xor_key_def by (rule length_fold_update)

lemma length_permute: "length (permute n r C) = length C"
  unfolding permute_def Let_def by (rule length_fold_update)

lemma length_unpermute: "length (unpermute n r M) = length M"
  unfolding unpermute_def Let_def by (rule length_fold_update)

lemma fold_own_position:
  "k \<le> length C \<Longrightarrow>
   fold (\<lambda>i C. C[i := F i (C ! i)]) [0..<k] C = map (\<lambda>i. F i (C ! i)) [0..<k] @ drop k C"
proof (induction k)
  case 0
  then show ?case by simp
next
  case (Suc k)
  then have k: "k < length C" by simp
  have "fold (\<lambda>i C. C[i := F i (C ! i)]) [0..<Suc k] C
      = (map (\<lambda>i. F i (C ! i)) [0..<k] @ drop k C)[k := F k ((map (\<lambda>i. F i (C ! i)) [0..<k] @ drop k C) ! k)]"
    using Suc by simp
  also have "(map (\<lambda>i. F i (C ! i)) [0..<k] @ drop k C) ! k = C ! k"
    using k by (simp add: nth_append)
  also have "(map (\<lambda>i. F i (C ! i)) [0..<k] @ drop k C)[k := F k (C ! k)]
      = map (\<lambda>i. F i (C ! i)) [0..<k] @ (drop k C)[0 := F k (C ! k)]"
    by (simp add: list_update_append)
  also have "(drop k C)[0 := F k (C ! k)] = F k (C ! k) # drop (Suc k) C"
    using k by (simp add: Cons_nth_drop_Suc [symmetric])
  finally show ?case by simp
qed

lemma xor_key_map:
  "length C = n \<Longrightarrow> xor_key K n s C = map (\<lambda>i. (C ! i) XOR (K ! ((i + s) mod n))) [0..<n]"
  unfolding xor_key_def
  using fold_own_position [of n C "\<lambda>i c. c XOR (K ! ((i + s) mod n))"] by simp

lemma unpermute_map:
  "length M = n \<Longrightarrow> unpermute n r M = map (\<lambda>i. M ! new_pos n r i) [0..<n]"
  unfolding unpermute_def Let_def
  using fold_own_position [of n M "\<lambda>i c. M ! new_pos n r i"] by simp

lemma fold_scatter_nth:
  "i < k \<Longrightarrow> inj_on p {0..<k} \<Longrightarrow> p i < length C \<Longrightarrow>
   fold (\<lambda>i C. C[p i := T ! i]) [0..<k] C ! (p i) = T ! i"
proof (induction k)
  case 0
  then show ?case by simp
next
  case (Suc k)
  let ?D = "fold (\<lambda>i C. C[p i := T ! i]) [0..<k] C"
  have len: "length ?D = length C" by (rule length_fold_update)
  show ?case
  proof (cases "i = k")
    case True
    with Suc.prems len show ?thesis by simp
  next
    case False
    with Suc.prems have ik: "i < k" by simp
    have inj: "inj_on p {0..<k}"
      using Suc.prems(2) by (rule inj_on_subset) auto
    have "p k \<noteq> p i"
      using inj_onD [OF Suc.prems(2), of k i] ik by auto
    then have "fold (\<lambda>i C. C[p i := T ! i]) [0..<Suc k] C ! (p i) = ?D ! (p i)"
      by simp
    also have "\<dots> = T ! i"
      using Suc.IH [OF ik inj Suc.prems(3)] .
    finally show ?thesis .
  qed
qed

lemma new_pos_less: "0 < n \<Longrightarrow> new_pos n r i < n"
  by (simp add: new_pos_def)

lemma unpermute_permute:
  assumes n: "0 < n" and len: "length C = n" and inj: "inj_on (new_pos n r) {0..<n}"
  shows "unpermute n r (permute n r C) = C"
proof -
  have "unpermute n r (permute n r C) = map (\<lambda>i. permute n r C ! new_pos n r i) [0..<n]"
    using len by (simp add: unpermute_map length_permute)
  also have "\<dots> = map (\<lambda>i. C ! i) [0..<n]"
  proof (rule map_cong [OF refl])
    fix i assume "i \<in> set [0..<n]"
    then have i: "i < n" by simp
    show "permute n r C ! new_pos n r i = C ! i"
      unfolding permute_def Let_def
      using fold_scatter_nth [OF i inj, of C C] new_pos_less [OF n, of r i] len by simp
  qed
  also have "\<dots> = C"
    using map_nth [of C] len by simp
  finally show ?thesis .
qed

lemma xor_key_involution:
  assumes "length C = n"
  shows "xor_key K n s (xor_key K n s C) = C"
proof -
  have "xor_key K n s (xor_key K n s C)
      = map (\<lambda>i. (xor_key K n s C ! i) XOR (K ! ((i + s) mod n))) [0..<n]"
    using assms by (simp add: xor_key_map length_xor_key)
  also have "\<dots> = map (\<lambda>i. C ! i) [0..<n]"
    using assms by (intro map_cong [OF refl]) (simp add: xor_key_map xor.assoc)
  also have "\<dots> = C"
    using map_nth [of C] assms by simp
  finally show ?thesis .
qed

subsection \<open>When the position map is injective\<close>

lemma coprime_3: "n mod 3 \<noteq> 0 \<Longrightarrow> coprime (3::nat) n"
proof -
  assume a: "n mod 3 \<noteq> 0"
  have d: "gcd 3 n dvd 3" by simp
  then have "gcd 3 n \<le> 3" by (rule dvd_imp_le) simp
  then consider "gcd 3 n = 0" | "gcd 3 n = 1" | "gcd 3 n = 2" | "gcd 3 n = 3" by linarith
  then show ?thesis
  proof cases
    case 1 then show ?thesis by simp
  next
    case 2 then show ?thesis by (simp add: coprime_iff_gcd_eq_1)
  next
    case 3 with d show ?thesis by simp
  next
    case 4
    have "gcd 3 n dvd n" by simp
    with 4 a show ?thesis by (simp add: mod_eq_0_iff_dvd)
  qed
qed

lemma coprime_5: "\<not> 5 dvd n \<Longrightarrow> coprime (5::nat) n"
proof -
  assume a: "\<not> 5 dvd n"
  have d: "gcd 5 n dvd 5" by simp
  then have "gcd 5 n \<le> 5" by (rule dvd_imp_le) simp
  then consider "gcd 5 n = 0" | "gcd 5 n = 1" | "gcd 5 n = 2" | "gcd 5 n = 3"
    | "gcd 5 n = 4" | "gcd 5 n = 5" by linarith
  then show ?thesis
  proof cases
    case 1 then show ?thesis by simp
  next
    case 2 then show ?thesis by (simp add: coprime_iff_gcd_eq_1)
  next
    case 3 with d show ?thesis by simp
  next
    case 4 with d show ?thesis by simp
  next
    case 5 with d show ?thesis by simp
  next
    case 6
    have "gcd 5 n dvd n" by simp
    with 6 a show ?thesis by simp
  qed
qed

lemma coprime_mult: "\<not> 15 dvd n \<Longrightarrow> coprime (mult n) n"
proof (cases "n mod 3 = 0")
  case False
  then show ?thesis by (simp add: mult_def coprime_3)
next
  case True
  assume a: "\<not> 15 dvd n"
  from True have 3: "3 dvd n" by (simp add: mod_eq_0_iff_dvd)
  have "\<not> 5 dvd n"
  proof
    assume 5: "5 dvd n"
    have "coprime (3::nat) 5" by (rule coprime_3) simp
    with 3 5 have "3 * 5 dvd n" by (rule divides_mult)
    with a show False by simp
  qed
  with True show ?thesis by (simp add: mult_def coprime_5)
qed

lemma new_pos_eq_imp_le:
  assumes cop: "coprime (mult n) n" and ij: "j \<le> i" and i: "i < n"
    and eq: "new_pos n r i = new_pos n r j"
  shows "i = j"
proof -
  have le: "j * mult n + r * 7 \<le> i * mult n + r * 7" using ij by simp
  have "n dvd (i * mult n + r * 7) - (j * mult n + r * 7)"
    using eq mod_eq_dvd_iff_nat [OF le, of n] by (simp add: new_pos_def)
  also have "(i * mult n + r * 7) - (j * mult n + r * 7) = (i - j) * mult n"
    by (simp add: diff_mult_distrib)
  finally have "n dvd (i - j) * mult n" .
  then have "n dvd i - j"
    using cop by (simp add: coprime_dvd_mult_left_iff coprime_commute)
  moreover have "i - j < n" using i by simp
  ultimately have "i - j = 0" by (meson dvd_imp_le not_less zero_less_iff_neq_zero)
  with ij show ?thesis by simp
qed

lemma inj_on_new_pos:
  assumes "\<not> 15 dvd n"
  shows "inj_on (new_pos n r) {0..<n}"
proof (rule inj_onI)
  fix i j assume i: "i \<in> {0..<n}" and j: "j \<in> {0..<n}" and eq: "new_pos n r i = new_pos n r j"
  have cop: "coprime (mult n) n" using assms by (rule coprime_mult)
  show "i = j"
  proof (cases "j \<le> i")
    case True
    then show ?thesis using new_pos_eq_imp_le [OF cop True _ eq] i by simp
  next
    case False
    then have "i \<le> j" by simp
    then show ?thesis using new_pos_eq_imp_le [OF cop _ _ eq [symmetric]] j by simp
  qed
qed

lemma bij_betw_new_pos:
  assumes "0 < n" "\<not> 15 dvd n"
  shows "bij_betw (new_pos n r) {0..<n} {0..<n}"
proof -
  have inj: "inj_on (new_pos n r) {0..<n}" using assms(2) by (rule inj_on_new_pos)
  have sub: "new_pos n r ` {0..<n} \<subseteq> {0..<n}"
    using assms(1) by (auto simp: new_pos_less)
  have "card (new_pos n r ` {0..<n}) = card {0..<n}"
    using inj by (rule card_image)
  then have "new_pos n r ` {0..<n} = {0..<n}"
    using sub by (intro card_subset_eq) simp_all
  with inj show ?thesis by (simp add: bij_betw_def)
qed

lemma not_inj_on_new_pos:
  assumes "0 < n" "15 dvd n"
  shows "\<not> inj_on (new_pos n r) {0..<n}"
proof
  assume inj: "inj_on (new_pos n r) {0..<n}"
  from assms obtain k where k: "n = 15 * k" "0 < k" by (auto elim: dvdE)
  then have m: "mult n = 5" by (simp add: mult_def)
  have e: "3 * k * 5 = n" using k by simp
  have "new_pos n r (3 * k) = (n + r * 7) mod n"
    unfolding new_pos_def m e ..
  also have "\<dots> = new_pos n r 0"
    by (simp add: new_pos_def)
  finally have "new_pos n r (3 * k) = new_pos n r 0" .
  moreover have "3 * k \<in> {0..<n}" "0 \<in> {0..<n}" using k by simp_all
  ultimately have "3 * k = 0" using inj by (auto dest: inj_onD)
  with k show False by simp
qed

subsection \<open>Results and exceptions of ENC and DEC\<close>

lemma for_rounds_append:
  "for_rounds body (rs @ rs') C =
     (case for_rounds body rs C of Inl e \<Rightarrow> Inl e | Inr C' \<Rightarrow> for_rounds body rs' C')"
  by (induction rs arbitrary: C) (simp_all split: sum.splits)

lemma enc_round_ok:
  "0 < n \<Longrightarrow> enc_round K n r C = Inr (permute n r (xor_key K n ((r * 11) mod n) C))"
  by (simp add: enc_round_def)

lemma dec_round_ok:
  "0 < n \<Longrightarrow> dec_round K n r M = Inr (xor_key K n ((r * 11) mod n) (unpermute n r M))"
  by (simp add: dec_round_def)

lemma for_rounds_invariant:
  assumes "\<And>r C. P C \<Longrightarrow> \<exists>C'. body r C = Inr C' \<and> P C'" and "P C"
  shows "\<exists>C'. for_rounds body rs C = Inr C' \<and> P C'"
  using assms(2)
proof (induction rs arbitrary: C)
  case Nil
  then show ?case by simp
next
  case (Cons r rs)
  from assms(1) [OF Cons.prems] obtain C1 where "body r C = Inr C1" "P C1" by blast
  with Cons.IH [of C1] show ?case by simp
qed

lemma for_rounds_enc_ok:
  assumes "0 < n" "length C = n"
  shows "\<exists>C'. for_rounds (enc_round K n) rs C = Inr C' \<and> length C' = n"
  by (rule for_rounds_invariant [where P = "\<lambda>C. length C = n"])
     (simp_all add: assms enc_round_ok length_permute length_xor_key)

lemma for_rounds_dec_ok:
  assumes "0 < n" "length C = n"
  shows "\<exists>C'. for_rounds (dec_round K n) rs C = Inr C' \<and> length C' = n"
  by (rule for_rounds_invariant [where P = "\<lambda>C. length C = n"])
     (simp_all add: assms dec_round_ok length_unpermute length_xor_key)

lemma for_rounds_zero:
  "rs \<noteq> [] \<Longrightarrow> for_rounds (enc_round K 0) rs C = Inl ZeroDivisionError"
  "rs \<noteq> [] \<Longrightarrow> for_rounds (dec_round K 0) rs C = Inl ZeroDivisionError"
  by (cases rs; simp add: enc_round_def dec_round_def)+

lemma rounds_nonempty: "[0..<6] \<noteq> []" "rev [0..<6] \<noteq> []"
  by simp_all

lemma ENC_cases:
  "ENC K M = (if length K \<noteq> length M then Inl ValueError
              else if length M = 0 then Inl ZeroDivisionError
              else for_rounds (enc_round K (length M)) [0..<6] M)"
  using for_rounds_zero(1) [OF rounds_nonempty(1)]
  by (simp add: ENC_def Let_def del: upt.simps upt_Suc)

lemma DEC_cases:
  "DEC K C = (if length K \<noteq> length C then Inl ValueError
              else if length C = 0 then Inl ZeroDivisionError
              else for_rounds (dec_round K (length C)) (rev [0..<6]) C)"
  using for_rounds_zero(2) [OF rounds_nonempty(2)]
  by (simp add: DEC_def Let_def del: upt.simps upt_Suc)

lemma ENC_ok:
  "length K = length M \<Longrightarrow> 0 < length M \<Longrightarrow> \<exists>C. ENC K M = Inr C \<and> length C = length M"
  using for_rounds_enc_ok [of "length M" M K "[0..<6]"] by (simp add: ENC_cases)

lemma DEC_ok:
  "length K = length C \<Longrightarrow> 0 < length C \<Longrightarrow> \<exists>M. DEC K C = Inr M \<and> length M = length C"
  using for_rounds_dec_ok [of "length C" C K "rev [0..<6]"] by (simp add: DEC_cases)

lemma ENC_ValueError_iff: "ENC K M = Inl ValueError \<longleftrightarrow> length K \<noteq> length M"
proof (cases "length K = length M \<and> 0 < length M")
  case True
  with ENC_ok [of K M] show ?thesis by auto
next
  case False
  then show ?thesis by (auto simp: ENC_cases)
qed

lemma DEC_ValueError_iff: "DEC K C = Inl ValueError \<longleftrightarrow> length K \<noteq> length C"
proof (cases "length K = length C \<and> 0 < length C")
  case True
  with DEC_ok [of K C] show ?thesis by auto
next
  case False
  then show ?thesis by (auto simp: DEC_cases)
qed

lemma ENC_Inr_length: "ENC K M = Inr C \<Longrightarrow> length K = length M \<and> 0 < length M \<and> length C = length M"
  using ENC_ok [of K M] by (auto simp: ENC_cases split: if_splits)

lemma DEC_Inr_length: "DEC K C = Inr M \<Longrightarrow> length K = length C \<and> 0 < length C \<and> length M = length C"
  using DEC_ok [of K C] by (auto simp: DEC_cases split: if_splits)

subsection \<open>Decryption after encryption\<close>

text \<open>
  For a length that is positive and not a multiple of 15, each round of \<^const>\<open>DEC\<close> undoes
  the round of \<^const>\<open>ENC\<close> with the same index, and so \<^const>\<open>DEC\<close> recovers the message.
\<close>

lemma dec_round_enc_round:
  assumes "0 < n" "\<not> 15 dvd n" "length C = n"
  shows "\<exists>C'. enc_round K n r C = Inr C' \<and> length C' = n \<and> dec_round K n r C' = Inr C"
  using assms
  by (simp add: enc_round_ok dec_round_ok length_permute length_xor_key
      unpermute_permute inj_on_new_pos xor_key_involution)

lemma for_rounds_round_trip:
  assumes "0 < n" "\<not> 15 dvd n" "length C = n"
  shows "\<exists>C'. for_rounds (enc_round K n) rs C = Inr C' \<and> length C' = n
            \<and> for_rounds (dec_round K n) (rev rs) C' = Inr C"
  using assms(3)
proof (induction rs arbitrary: C)
  case Nil
  then show ?case by simp
next
  case (Cons r rs)
  from dec_round_enc_round [OF assms(1,2) Cons.prems, of K r]
  obtain C1 where C1: "enc_round K n r C = Inr C1" "length C1 = n" "dec_round K n r C1 = Inr C"
    by blast
  from Cons.IH [OF C1(2)]
  obtain C2 where C2: "for_rounds (enc_round K n) rs C1 = Inr C2" "length C2 = n"
      "for_rounds (dec_round K n) (rev rs) C2 = Inr C1"
    by blast
  show ?case
    using C1 C2 by (simp add: for_rounds_append)
qed

lemma DEC_ENC:
  assumes "length K = length M" "0 < length M" "\<not> 15 dvd length M"
  shows "\<exists>C. ENC K M = Inr C \<and> DEC K C = Inr M"
proof -
  from for_rounds_round_trip [OF assms(2,3) refl, of K "[0..<6]"]
  obtain C where C: "for_rounds (enc_round K (length M)) [0..<6] M = Inr C" "length C = length M"
      "for_rounds (dec_round K (length M)) (rev [0..<6]) C = Inr M"
    by blast
  then show ?thesis
    using assms by (simp add: ENC_cases DEC_cases)
qed

subsection \<open>The permutation step as a re-indexing\<close>

lemma fold_scatter_map:
  "fold (\<lambda>i C. C[p i := T ! i]) is (map ((!) T) S) = map ((!) T) (fold (\<lambda>i S. S[p i := i]) is S)"
proof (induction "is" arbitrary: S)
  case Nil
  then show ?case by simp
next
  case (Cons a "is")
  have "(map ((!) T) S)[p a := T ! a] = map ((!) T) (S[p a := a])"
    by (simp add: map_update)
  then show ?case by (simp add: Cons.IH)
qed

lemma permute_gather:
  assumes "length C = n"
  shows "permute n r C = map ((!) C) (perm_src n r)"
proof -
  have "C = map ((!) C) [0..<n]"
    using map_nth [of C] assms by simp
  then have "permute n r C = fold (\<lambda>i D. D[new_pos n r i := C ! i]) [0..<n] (map ((!) C) [0..<n])"
    by (simp add: permute_def)
  then show ?thesis
    by (simp add: fold_scatter_map perm_src_def)
qed

lemma set_fold_update:
  "set S \<subseteq> A \<Longrightarrow> (\<And>i. i \<in> set is \<Longrightarrow> v i \<in> A) \<Longrightarrow>
   set (fold (\<lambda>i S. S[p i := v i]) is S) \<subseteq> A"
proof (induction "is" arbitrary: S)
  case Nil
  then show ?case by simp
next
  case (Cons i "is")
  have "set (S[p i := v i]) \<subseteq> insert (v i) (set S)"
    by (rule set_update_subset_insert)
  with Cons.prems have "set (S[p i := v i]) \<subseteq> A" by auto
  with Cons show ?case by simp
qed

lemma perm_src_less: "j \<in> set (perm_src n r) \<Longrightarrow> j < n"
  using set_fold_update [of "[0..<n]" "{0..<n}" "[0..<n]" "\<lambda>i. i" "new_pos n r"]
  by (auto simp: perm_src_def)

lemma length_perm_src: "length (perm_src n r) = n"
  by (simp add: perm_src_def length_fold_update)

lemma enc_round_gather:
  assumes "0 < n" "length C = n"
  shows "enc_round K n r C =
           Inr (map (\<lambda>j. (C ! j) XOR (K ! ((j + (r * 11) mod n) mod n))) (perm_src n r))"
proof -
  let ?X = "xor_key K n ((r * 11) mod n) C"
  have "permute n r ?X = map ((!) ?X) (perm_src n r)"
    by (rule permute_gather) (simp add: length_xor_key assms)
  also have "\<dots> = map (\<lambda>j. (C ! j) XOR (K ! ((j + (r * 11) mod n) mod n))) (perm_src n r)"
    by (rule map_cong [OF refl]) (simp add: xor_key_map assms perm_src_less)
  finally show ?thesis
    using assms(1) by (simp add: enc_round_ok)
qed

lemma length_xor_lists: "length (xor_lists A B) = min (length A) (length B)"
  by (simp add: xor_lists_def)

lemma nth_xor_lists:
  "j < length A \<Longrightarrow> j < length B \<Longrightarrow> xor_lists A B ! j = (A ! j) XOR (B ! j)"
  by (simp add: xor_lists_def)

lemma xor_lists_map: "xor_lists (map f xs) (map g xs) = map (\<lambda>x. f x XOR g x) xs"
  by (induction xs) (simp_all add: xor_lists_def)

lemma xor_three:
  "((a XOR k) XOR (b XOR k)) XOR (z XOR k) = ((a XOR b) XOR z) XOR (k::int)"
  by (rule bit_eqI) (auto simp: bit_xor_iff)

lemma enc_round_affine:
  assumes n: "0 < n" and len: "length A = n" "length B = n" "length Z = n"
  shows "\<exists>A' B' Z'. enc_round K n r A = Inr A' \<and> enc_round K n r B = Inr B'
           \<and> enc_round K n r Z = Inr Z'
           \<and> length A' = n \<and> length B' = n \<and> length Z' = n
           \<and> enc_round K n r (xor_lists (xor_lists A B) Z) = Inr (xor_lists (xor_lists A' B') Z')"
proof -
  let ?k = "\<lambda>j. K ! ((j + (r * 11) mod n) mod n)"
  let ?R = "\<lambda>C. map (\<lambda>j. (C ! j) XOR ?k j) (perm_src n r)"
  let ?X = "xor_lists (xor_lists A B) Z"
  have lenX: "length ?X = n" using len by (simp add: length_xor_lists)
  have "?R ?X = map (\<lambda>j. (((A ! j) XOR ?k j) XOR ((B ! j) XOR ?k j)) XOR ((Z ! j) XOR ?k j)) (perm_src n r)"
  proof (rule map_cong [OF refl])
    fix j assume "j \<in> set (perm_src n r)"
    then have j: "j < n" by (rule perm_src_less)
    have "?X ! j = ((A ! j) XOR (B ! j)) XOR (Z ! j)"
      using j len by (simp add: nth_xor_lists length_xor_lists)
    then show "(?X ! j) XOR ?k j = (((A ! j) XOR ?k j) XOR ((B ! j) XOR ?k j)) XOR ((Z ! j) XOR ?k j)"
      by (simp only: xor_three)
  qed
  also have "\<dots> = xor_lists (xor_lists (?R A) (?R B)) (?R Z)"
    by (simp add: xor_lists_map)
  finally have "?R ?X = xor_lists (xor_lists (?R A) (?R B)) (?R Z)" .
  then show ?thesis
    using n len lenX by (simp add: enc_round_gather length_perm_src)
qed

lemma for_rounds_affine:
  assumes n: "0 < n" and len: "length A = n" "length B = n" "length Z = n"
  shows "\<exists>A' B' Z'. for_rounds (enc_round K n) rs A = Inr A'
           \<and> for_rounds (enc_round K n) rs B = Inr B'
           \<and> for_rounds (enc_round K n) rs Z = Inr Z'
           \<and> for_rounds (enc_round K n) rs (xor_lists (xor_lists A B) Z)
               = Inr (xor_lists (xor_lists A' B') Z')"
  using len
proof (induction rs arbitrary: A B Z)
  case Nil
  then show ?case by simp
next
  case (Cons r rs)
  from enc_round_affine [OF n Cons.prems, of K r]
  obtain A1 B1 Z1 where 1: "enc_round K n r A = Inr A1" "enc_round K n r B = Inr B1"
      "enc_round K n r Z = Inr Z1" "length A1 = n" "length B1 = n" "length Z1 = n"
      "enc_round K n r (xor_lists (xor_lists A B) Z) = Inr (xor_lists (xor_lists A1 B1) Z1)"
    by blast
  from Cons.IH [OF 1(4,5,6)] 1(1,2,3,7) show ?case by simp
qed

lemma xor_lists_zero:
  "length A = n \<Longrightarrow> xor_lists A (replicate n 0) = A"
  by (rule nth_equalityI) (simp_all add: length_xor_lists nth_xor_lists)

lemma ENC_affine:
  assumes "length K = n" "length M1 = n" "length M2 = n" "1 \<le> n"
  shows "\<exists>C1 C2 C0. ENC K M1 = Inr C1 \<and> ENC K M2 = Inr C2 \<and> ENC K (replicate n 0) = Inr C0
           \<and> ENC K (xor_lists M1 M2) = Inr (xor_lists (xor_lists C1 C2) C0)"
proof -
  have n: "0 < n" using assms(4) by simp
  have z: "xor_lists (xor_lists M1 M2) (replicate n 0) = xor_lists M1 M2"
    using assms by (simp add: xor_lists_zero length_xor_lists)
  have l: "length (xor_lists M1 M2) = n"
    using assms by (simp add: length_xor_lists)
  from for_rounds_affine [OF n assms(2,3), of "replicate n 0" K "[0..<6]"]
  show ?thesis
    using assms n l unfolding z by (simp add: ENC_cases del: upt.simps upt_Suc)
qed

lemma enc_round_gather_step:
  assumes n: "0 < n" and len: "length M = n" "length Z = n" "length S = n"
    and S: "set S \<subseteq> {0..<n}"
  shows "enc_round K n r (xor_lists (map ((!) M) S) Z)
           = Inr (xor_lists (map ((!) M) (map ((!) S) (perm_src n r)))
                   (map (\<lambda>j. (Z ! j) XOR (K ! ((j + (r * 11) mod n) mod n))) (perm_src n r)))"
proof -
  let ?k = "\<lambda>j. K ! ((j + (r * 11) mod n) mod n)"
  let ?X = "xor_lists (map ((!) M) S) Z"
  have lenX: "length ?X = n" using len by (simp add: length_xor_lists)
  have "map (\<lambda>j. (?X ! j) XOR ?k j) (perm_src n r)
      = map (\<lambda>j. (M ! (S ! j)) XOR ((Z ! j) XOR ?k j)) (perm_src n r)"
  proof (rule map_cong [OF refl])
    fix j assume "j \<in> set (perm_src n r)"
    then have j: "j < n" by (rule perm_src_less)
    then have "?X ! j = (M ! (S ! j)) XOR (Z ! j)"
      using len by (simp add: nth_xor_lists)
    then show "(?X ! j) XOR ?k j = (M ! (S ! j)) XOR ((Z ! j) XOR ?k j)"
      by (simp add: xor.assoc)
  qed
  also have "\<dots> = xor_lists (map (\<lambda>j. M ! (S ! j)) (perm_src n r))
      (map (\<lambda>j. (Z ! j) XOR ?k j) (perm_src n r))"
    by (simp add: xor_lists_map)
  also have "map (\<lambda>j. M ! (S ! j)) (perm_src n r) = map ((!) M) (map ((!) S) (perm_src n r))"
    by (simp add: o_def)
  finally show ?thesis
    using n lenX by (simp add: enc_round_gather)
qed

lemma for_rounds_gather:
  assumes n: "0 < n" and len: "length M = n" "length Z = n" "length S = n"
    and S: "set S \<subseteq> {0..<n}"
  shows "\<exists>Z'. for_rounds (enc_round K n) rs Z = Inr Z' \<and> length Z' = n
           \<and> for_rounds (enc_round K n) rs (xor_lists (map ((!) M) S) Z)
               = Inr (xor_lists (map ((!) M) (fold (\<lambda>r S. map ((!) S) (perm_src n r)) rs S)) Z')"
  using len(2,3) S
proof (induction rs arbitrary: Z S)
  case Nil
  then show ?case by simp
next
  case (Cons r rs)
  let ?Z1 = "map (\<lambda>j. (Z ! j) XOR (K ! ((j + (r * 11) mod n) mod n))) (perm_src n r)"
  let ?S1 = "map ((!) S) (perm_src n r)"
  have z: "enc_round K n r Z = Inr ?Z1"
    using n Cons.prems(1) by (rule enc_round_gather)
  have x: "enc_round K n r (xor_lists (map ((!) M) S) Z) = Inr (xor_lists (map ((!) M) ?S1) ?Z1)"
    using n len(1) Cons.prems by (rule enc_round_gather_step)
  have l: "length ?Z1 = n" "length ?S1 = n" by (simp_all add: length_perm_src)
  have s: "set ?S1 \<subseteq> {0..<n}"
  proof
    fix a assume "a \<in> set ?S1"
    then obtain j where "j \<in> set (perm_src n r)" "a = S ! j" by auto
    then have "j < length S" "a = S ! j" using perm_src_less Cons.prems(2) by auto
    then have "a \<in> set S" by simp
    with Cons.prems(3) show "a \<in> {0..<n}" by blast
  qed
  from Cons.IH [OF l s] z x show ?case by simp
qed

lemma ENC_gather:
  assumes "length K = n" "length M = n" "0 < n"
  shows "\<exists>C0. ENC K (replicate n 0) = Inr C0
           \<and> ENC K M = Inr (xor_lists (map ((!) M) (enc_src n)) C0)"
proof -
  have m: "xor_lists (map ((!) M) [0..<n]) (replicate n 0) = M"
    using map_nth [of M] assms(2) by (simp add: xor_lists_zero)
  from for_rounds_gather [OF assms(3,2), of "replicate n 0" "[0..<n]" K "[0..<6]"]
  obtain C0 where "for_rounds (enc_round K n) [0..<6] (replicate n 0) = Inr C0"
    "for_rounds (enc_round K n) [0..<6] M = Inr (xor_lists (map ((!) M) (enc_src n)) C0)"
    unfolding m enc_src_def by auto
  then show ?thesis
    using assms by (simp add: ENC_cases del: upt.simps upt_Suc)
qed

lemma set_enc_src: "set (enc_src n) \<subseteq> {0..<n}"
proof -
  have "set (fold (\<lambda>r S. map ((!) S) (perm_src n r)) rs S) \<subseteq> {0..<n}"
    if "set S \<subseteq> {0..<n}" "length S = n" for rs S
    using that
  proof (induction rs arbitrary: S)
    case Nil
    then show ?case by simp
  next
    case (Cons r rs)
    have "set (map ((!) S) (perm_src n r)) \<subseteq> {0..<n}"
    proof
      fix a assume "a \<in> set (map ((!) S) (perm_src n r))"
      then obtain j where "j \<in> set (perm_src n r)" "a = S ! j" by auto
      then have "j < length S" "a = S ! j" using perm_src_less Cons.prems(2) by auto
      then have "a \<in> set S" by simp
      with Cons.prems(1) show "a \<in> {0..<n}" by blast
    qed
    then show ?case
      using Cons.IH [of "map ((!) S) (perm_src n r)"] by (simp add: length_perm_src)
  qed
  then show ?thesis by (simp add: enc_src_def del: upt.simps upt_Suc)
qed

text \<open>
  For a key of 60 bits, the length that \<^const>\<open>GEN\<close> gives for a seed of 15 characters, no
  position of the ciphertext depends on position 0 of the message: two messages that differ
  there have the same ciphertext, whatever the key.
\<close>

lemma zero_not_src_60: "0 \<notin> set (enc_src 60)"
  by code_simp

lemma ENC_collision_60:
  assumes "length K = 60"
  shows "ENC K (1 # replicate 59 0) = ENC K (replicate 60 0)"
proof -
  have "map ((!) (1 # replicate 59 (0::int))) (enc_src 60) = map ((!) (replicate 60 0)) (enc_src 60)"
  proof (rule map_cong [OF refl])
    fix j assume j: "j \<in> set (enc_src 60)"
    have "j \<noteq> 0"
    proof
      assume "j = 0"
      with j zero_not_src_60 show False by simp
    qed
    moreover have "j < 60" using j set_enc_src [of 60] by auto
    ultimately show "(1 # replicate 59 (0::int)) ! j = replicate 60 0 ! j"
      by (cases j) simp_all
  qed
  with ENC_gather [of K 60 "1 # replicate 59 0"] ENC_gather [of K 60 "replicate 60 0"] assms
  show ?thesis by auto
qed

subsection \<open>Bits stay bits\<close>

lemma xor_bit: "a \<in> {0, 1} \<Longrightarrow> b \<in> {0, 1} \<Longrightarrow> a XOR b \<in> {0, 1::int}"
  by auto

lemma enc_round_bits:
  assumes "0 < n" "length K = n" "set K \<subseteq> {0, 1}" "length C = n" "set C \<subseteq> {0, 1}"
  shows "\<exists>C'. enc_round K n r C = Inr C' \<and> length C' = n \<and> set C' \<subseteq> {0, 1}"
proof -
  have "(C ! j) XOR (K ! ((j + (r * 11) mod n) mod n)) \<in> {0, 1}" if "j \<in> set (perm_src n r)" for j
  proof (rule xor_bit)
    from that have "j < n" by (rule perm_src_less)
    then show "C ! j \<in> {0, 1}" using assms(4,5) nth_mem by blast
    have "(j + (r * 11) mod n) mod n < n" using assms(1) by simp
    then show "K ! ((j + (r * 11) mod n) mod n) \<in> {0, 1}" using assms(2,3) nth_mem by blast
  qed
  then show ?thesis
    using assms(1,4) by (auto simp: enc_round_gather length_perm_src)
qed

lemma dec_round_bits:
  assumes "0 < n" "length K = n" "set K \<subseteq> {0, 1}" "length M = n" "set M \<subseteq> {0, 1}"
  shows "\<exists>M'. dec_round K n r M = Inr M' \<and> length M' = n \<and> set M' \<subseteq> {0, 1}"
proof -
  let ?s = "(r * 11) mod n"
  have eq: "xor_key K n ?s (unpermute n r M)
      = map (\<lambda>i. (M ! new_pos n r i) XOR (K ! ((i + ?s) mod n))) [0..<n]"
    using assms(4) by (simp add: xor_key_map length_unpermute unpermute_map)
  have "(M ! new_pos n r i) XOR (K ! ((i + ?s) mod n)) \<in> {0, 1}" for i
  proof (rule xor_bit)
    have "new_pos n r i < n" using assms(1) by (rule new_pos_less)
    then show "M ! new_pos n r i \<in> {0, 1}" using assms(4,5) nth_mem by blast
    have "(i + ?s) mod n < n" using assms(1) by simp
    then show "K ! ((i + ?s) mod n) \<in> {0, 1}" using assms(2,3) nth_mem by blast
  qed
  then show ?thesis
    using assms(1) unfolding dec_round_ok [OF assms(1)] eq by auto
qed

lemma ENC_bits:
  assumes "set K \<subseteq> {0, 1}" "set M \<subseteq> {0, 1}" "ENC K M = Inr C"
  shows "set C \<subseteq> {0, 1}"
proof -
  from assms(3) have l: "length K = length M" "0 < length M"
    using ENC_Inr_length by blast+
  have "\<exists>C'. for_rounds (enc_round K (length M)) [0..<6] M = Inr C'
          \<and> length C' = length M \<and> set C' \<subseteq> {0, 1}"
    by (rule for_rounds_invariant [where P = "\<lambda>C. length C = length M \<and> set C \<subseteq> {0, 1}"])
       (use assms(1,2) l in \<open>simp_all add: enc_round_bits\<close>)
  with assms(3) l show ?thesis by (simp add: ENC_cases)
qed

lemma DEC_bits:
  assumes "set K \<subseteq> {0, 1}" "set C \<subseteq> {0, 1}" "DEC K C = Inr M"
  shows "set M \<subseteq> {0, 1}"
proof -
  from assms(3) have l: "length K = length C" "0 < length C"
    using DEC_Inr_length by blast+
  have "\<exists>M'. for_rounds (dec_round K (length C)) (rev [0..<6]) C = Inr M'
          \<and> length M' = length C \<and> set M' \<subseteq> {0, 1}"
    by (rule for_rounds_invariant [where P = "\<lambda>M. length M = length C \<and> set M \<subseteq> {0, 1}"])
       (use assms(1,2) l in \<open>simp_all add: dec_round_bits\<close>)
  with assms(3) l show ?thesis by (simp add: DEC_cases)
qed

section \<open>Properties of GEN\<close>

lemma fold_append_while_short:
  "fold (\<lambda>x kb. if length kb < L then kb @ [f x] else kb) xs kb
     = kb @ take (L - length kb) (map f xs)"
proof (induction xs arbitrary: kb)
  case Nil
  then show ?case by simp
next
  case (Cons x xs)
  show ?case
  proof (cases "length kb < L")
    case True
    then have "L - length kb = Suc (L - Suc (length kb))" by simp
    with True Cons.IH [of "kb @ [f x]"] show ?thesis by simp
  next
    case False
    with Cons.IH [of kb] show ?thesis by simp
  qed
qed

lemma shifted_bit: "drop_bit k (uint (b :: byte)) AND 1 = (if bit b k then 1 else 0)"
proof -
  have "bit b k = bit (uint b) k" by (auto simp: bit_uint_iff dest: bit_imp_le_length)
  also have "\<dots> = odd (drop_bit k (uint b))" by (rule bit_iff_odd_drop_bit)
  finally show ?thesis by (simp add: and_one_eq mod2_eq_if)
qed

lemma take_step:
  "(kb @ take (L - length kb) xs) @ take (L - length (kb @ take (L - length kb) xs)) ys
     = kb @ take (L - length kb) (xs @ ys)"
  by (simp add: min_def)

lemma upt_8: "[0..<8] = [0, 1, 2, 3, 4, 5, 6, 7]"
  by (simp add: upt_rec)

lemma bits_of_byte:
  "map (\<lambda>i. drop_bit (7 - i) (uint (b :: byte)) AND 1) [0..<8] = msb_first b"
  by (simp add: upt_8 msb_first_def shifted_bit)

lemma append_byte_take:
  "append_byte L b kb = kb @ take (L - length kb) (msb_first b)"
  unfolding append_byte_def fold_append_while_short bits_of_byte ..

lemma append_digest_take:
  "append_digest L bs kb = kb @ take (L - length kb) (concat (map msb_first bs))"
  unfolding append_digest_def
proof (induction bs arbitrary: kb)
  case Nil
  then show ?case by simp
next
  case (Cons b bs)
  have "fold (append_byte L) (b # bs) kb = fold (append_byte L) bs (append_byte L b kb)"
    by simp
  also have "\<dots> = append_byte L b kb
      @ take (L - length (append_byte L b kb)) (concat (map msb_first bs))"
    by (rule Cons.IH)
  also have "\<dots> = kb @ take (L - length kb) (msb_first b @ concat (map msb_first bs))"
    unfolding append_byte_take by (rule take_step)
  finally show ?case by simp
qed

lemma encode_char_Inl: "encode_char c = Inl e \<longleftrightarrow> e = UnicodeEncodeError \<and> 0xD800 \<le> c \<and> c \<le> 0xDFFF"
  by (auto simp: encode_char_def)

lemma encode_encodable: "encodable s \<Longrightarrow> \<exists>bs. encode s = Inr bs"
proof (induction s)
  case Nil
  then show ?case by simp
next
  case (Cons c cs)
  then obtain rest where r: "encode cs = Inr rest" by (auto simp: encodable_def)
  from Cons.prems have "\<not> (0xD800 \<le> c \<and> c \<le> 0xDFFF)" by (simp add: encodable_def)
  then obtain bs where "encode_char c = Inr bs"
    using encode_char_Inl [of c] by (cases "encode_char c") auto
  with r show ?case by simp
qed

lemma encode_not_encodable: "\<not> encodable s \<Longrightarrow> encode s = Inl UnicodeEncodeError"
proof (induction s)
  case Nil
  then show ?case by (simp add: encodable_def)
next
  case (Cons c cs)
  show ?case
  proof (cases "0xD800 \<le> c \<and> c \<le> 0xDFFF")
    case True
    then have "encode_char c = Inl UnicodeEncodeError" by (simp add: encode_char_def)
    then show ?thesis by simp
  next
    case False
    with Cons.prems have "\<not> encodable cs" by (simp add: encodable_def)
    then have "encode cs = Inl UnicodeEncodeError" by (rule Cons.IH)
    then show ?thesis by (auto simp: encode_char_Inl split: sum.splits)
  qed
qed

lemma encodable_append: "encodable (s @ t) \<longleftrightarrow> encodable s \<and> encodable t"
  by (simp add: encodable_def)

lemma encodable_str: "encodable (str n)"
proof (induction n rule: str.induct)
  case (1 n)
  have d: "encodable [digit_char k]" if "k < 10" for k
    using that by (simp add: encodable_def digit_char_def)
  show ?case
  proof (cases "n < 10")
    case True
    then show ?thesis by (subst str.simps) (simp add: d)
  next
    case False
    then have "encodable (str (n div 10))" by (rule "1.IH")
    moreover have "encodable [digit_char (n mod 10)]" by (rule d) simp
    ultimately show ?thesis
      using False by (subst str.simps) (simp add: encodable_append)
  qed
qed

lemma encodable_block_input: "encodable seed \<Longrightarrow> encodable (block_input seed c)"
  by (simp add: block_input_def encodable_append encodable_str)

lemma sha256_digest_encodable: "encodable s \<Longrightarrow> sha256_digest H s = Inr (H (utf8 s))"
  using encode_encodable [of s] by (auto simp: sha256_digest_def utf8_def)

lemma sha256_digest_not_encodable:
  "\<not> encodable s \<Longrightarrow> sha256_digest H s = Inl UnicodeEncodeError"
  by (simp add: sha256_digest_def encode_not_encodable)

lemma gen_loop_closed:
  assumes "encodable seed" "counter = 0 \<longrightarrow> hash_bytes = H (utf8 seed)"
    and "L \<le> length key_bits + length (concat (map (block_bits H seed) [counter..<counter + m]))"
  shows "gen_loop H seed L hash_bytes key_bits counter
     = Some (Inr (key_bits @ take (L - length key_bits)
         (concat (map (block_bits H seed) [counter..<counter + m]))))"
  using assms(2,3)
proof (induction m arbitrary: hash_bytes key_bits counter)
  case 0
  then show ?case by (simp add: gen_loop.simps)
next
  case (Suc m)
  show ?case
  proof (cases "length key_bits < L")
    case False
    then show ?thesis by (simp add: gen_loop.simps)
  next
    case True
    let ?hb = "H (utf8 (block_input seed counter))"
    let ?kb = "append_digest L ?hb key_bits"
    define rest where "rest = concat (map (block_bits H seed) [Suc counter..<Suc counter + m])"
    define blk where "blk = block_bits H seed counter"
    have dg: "(if counter > 0 then sha256_digest H (seed @ str counter) else Inr hash_bytes)
        = Inr ?hb"
    proof (cases "counter = 0")
      case True
      with Suc.prems(1) show ?thesis by (simp add: block_input_def)
    next
      case False
      have "encodable (seed @ str counter)"
        using assms(1) by (simp add: encodable_append encodable_str)
      then show ?thesis
        using False by (simp add: sha256_digest_encodable block_input_def)
    qed
    have hb: "concat (map msb_first ?hb) = blk"
      by (simp add: blk_def block_bits_def)
    have kb: "?kb = key_bits @ take (L - length key_bits) blk"
      unfolding append_digest_take hb ..
    have "[counter..<counter + Suc m] = counter # [Suc counter..<Suc counter + m]"
      by (simp add: upt_rec)
    then have upt: "concat (map (block_bits H seed) [counter..<counter + Suc m]) = blk @ rest"
      by (simp only: rest_def blk_def list.map concat.simps)
    have enough: "L \<le> length ?kb + length rest"
      using Suc.prems(2) unfolding kb upt by (auto simp: min_def)
    have "gen_loop H seed L hash_bytes key_bits counter
        = gen_loop H seed L ?hb ?kb (Suc counter)"
      using True by (subst gen_loop.simps) (simp add: dg Let_def)
    also have "\<dots> = Some (Inr (?kb @ take (L - length ?kb) rest))"
      unfolding rest_def by (rule Suc.IH) (use enough in \<open>simp_all add: rest_def\<close>)
    also have "?kb @ take (L - length ?kb) rest
        = key_bits @ take (L - length key_bits) (blk @ rest)"
      unfolding kb by (rule take_step)
    finally show ?thesis unfolding upt .
  qed
qed

lemma GEN_closed:
  assumes "encodable seed" "4 * length seed \<le> length (key_stream H seed k)"
  shows "GEN H seed = Some (Inr (take (4 * length seed) (key_stream H seed k)))"
  using gen_loop_closed [OF assms(1), of 0 "H (utf8 seed)" H "4 * length seed" "[]" k] assms
  by (simp add: GEN_def key_stream_def sha256_digest_encodable)

lemma GEN_raises: "\<not> encodable seed \<Longrightarrow> GEN H seed = Some (Inl UnicodeEncodeError)"
  by (simp add: GEN_def sha256_digest_not_encodable)

lemma length_msb_first: "length (msb_first b) = 8"
  by (simp add: msb_first_def)

lemma length_concat_const:
  "(\<And>x. x \<in> set xs \<Longrightarrow> length (f x) = c) \<Longrightarrow> length (concat (map f xs)) = c * length xs"
  by (induction xs) simp_all


lemma length_block_bits:
  "length (block_bits H seed c) = 8 * length (H (utf8 (block_input seed c)))"
  unfolding block_bits_def by (rule length_concat_const) (rule length_msb_first)

lemma length_key_stream:
  assumes "\<And>bs. length (H bs) = 32"
  shows "length (key_stream H seed k) = 256 * k"
  unfolding key_stream_def
  using length_concat_const [of "[0..<k]" "block_bits H seed" 256]
  by (simp add: length_block_bits assms)

lemma set_msb_first: "set (msb_first b) \<subseteq> {0, 1}"
  by (auto simp: msb_first_def)

lemma set_key_stream: "set (key_stream H seed k) \<subseteq> {0, 1}"
  using set_msb_first by (auto simp: key_stream_def block_bits_def)

lemma GEN_empty: "GEN H [] = Some (Inr [])"
  by (simp add: GEN_def gen_loop.simps sha256_digest_def)

lemma GEN_Inr_encodable: "GEN H seed = Some (Inr key) \<Longrightarrow> encodable seed"
  using GEN_raises [of seed H] by (cases "encodable seed") simp_all

lemma length_toy_hash: "length (toy_hash bs) = 32"
  by (simp add: toy_hash_def)

lemma of_char_less_256: "(of_char c :: int) < 256"
proof -
  have "(of_char c :: int) mod 256 < 256" by (rule pos_mod_bound) simp
  then show ?thesis by (simp only: of_char_mod_256)
qed

lemma encodable_py_str: "encodable (py_str s)"
proof (induction s)
  case Nil
  then show ?case by (simp add: encodable_def py_str_def)
next
  case (Cons c s)
  have "(of_char c :: int) < 256" by (rule of_char_less_256)
  with Cons show ?case by (simp add: encodable_def py_str_def)
qed

section \<open>The store: what a call changes\<close>

lemma fold_heap_cell:
  assumes "C < length h" "K \<noteq> C"
  shows "fold (\<lambda>i h. h[C := F i (h ! K) (h ! C)]) is h
           = h[C := fold (\<lambda>i c. F i (h ! K) c) is (h ! C)]"
  using assms(1)
proof (induction "is" arbitrary: h)
  case Nil
  then show ?case by simp
next
  case (Cons i "is")
  let ?h1 = "h[C := F i (h ! K) (h ! C)]"
  have 1: "C < length ?h1" using Cons.prems by simp
  have 2: "?h1 ! K = h ! K" using assms(2) by simp
  have 3: "?h1 ! C = F i (h ! K) (h ! C)" using Cons.prems by simp
  show ?case
    using Cons.IH [OF 1] unfolding 2 3 by simp
qed

lemma xor_key_h_refines:
  assumes "C < length h" "K \<noteq> C"
  shows "xor_key_h K n s C h = h[C := xor_key (h ! K) n s (h ! C)]"
  unfolding xor_key_h_def xor_key_def
  using fold_heap_cell [OF assms, of "\<lambda>i k c. c[i := (c ! i) XOR (k ! ((i + s) mod n))]" "[0..<n]"]
  by simp

lemma permute_h_refines:
  assumes "C < length h"
  shows "permute_h n r C h = (h @ [h ! C])[C := permute n r (h ! C)]"
proof -
  let ?h1 = "h @ [h ! C]"
  have 1: "C < length ?h1" using assms by simp
  have 2: "length h \<noteq> C" using assms by simp
  have 3: "?h1 ! length h = h ! C" by simp
  have 4: "?h1 ! C = h ! C" using assms by (simp add: nth_append)
  show ?thesis
    unfolding permute_h_def permute_def copy_def Let_def prod.case
    using fold_heap_cell [OF 1 2, of "\<lambda>i t c. c[new_pos n r i := t ! i]" "[0..<n]"]
    unfolding 3 4 by simp
qed

lemma unpermute_h_refines:
  assumes "M < length h"
  shows "unpermute_h n r M h = (h @ [h ! M])[M := unpermute n r (h ! M)]"
proof -
  let ?h1 = "h @ [h ! M]"
  have 1: "M < length ?h1" using assms by simp
  have 2: "length h \<noteq> M" using assms by simp
  have 3: "?h1 ! length h = h ! M" by simp
  have 4: "?h1 ! M = h ! M" using assms by (simp add: nth_append)
  show ?thesis
    unfolding unpermute_h_def unpermute_def copy_def Let_def prod.case
    using fold_heap_cell [OF 1 2, of "\<lambda>i t c. c[i := t ! new_pos n r i]" "[0..<n]"]
    unfolding 3 4 by simp
qed

lemma enc_round_h_refines:
  assumes "C < length h" "K \<noteq> C"
  shows "refines_step C h (enc_round_h K n C r h) (enc_round (h ! K) n r (h ! C))"
proof (cases "n = 0")
  case True
  then show ?thesis by (simp add: refines_step_def enc_round_h_def enc_round_def)
next
  case False
  let ?s = "(r * 11) mod n"
  let ?x = "xor_key (h ! K) n ?s (h ! C)"
  let ?h1 = "h[C := ?x]"
  have 1: "xor_key_h K n ?s C h = ?h1"
    using assms by (rule xor_key_h_refines)
  have 2: "permute_h n r C ?h1 = (?h1 @ [?x])[C := permute n r ?x]"
    using permute_h_refines [of C ?h1 n r] assms(1) by simp
  have 3: "enc_round_h K n C r h = (None, (?h1 @ [?x])[C := permute n r ?x])"
    using False by (simp add: enc_round_h_def 1 2)
  have 4: "enc_round (h ! K) n r (h ! C) = Inr (permute n r ?x)"
    using False by (simp add: enc_round_def)
  show ?thesis
    unfolding 3 4 refines_step_def using assms(1) by (simp add: nth_append)
qed

lemma dec_round_h_refines:
  assumes "M < length h" "K < length h" "K \<noteq> M"
  shows "refines_step M h (dec_round_h K n M r h) (dec_round (h ! K) n r (h ! M))"
proof -
  let ?u = "unpermute n r (h ! M)"
  let ?h1 = "(h @ [h ! M])[M := ?u]"
  have 1: "unpermute_h n r M h = ?h1"
    using assms(1) by (rule unpermute_h_refines)
  show ?thesis
  proof (cases "n = 0")
    case True
    then show ?thesis
      using assms(1)
      by (simp add: refines_step_def dec_round_h_def dec_round_def
          unpermute_h_refines [OF assms(1)] nth_append)
  next
    case False
    let ?s = "(r * 11) mod n"
    have k: "?h1 ! K = h ! K" using assms by (simp add: nth_append)
    have m: "?h1 ! M = ?u" using assms by simp
    have 2: "xor_key_h K n ?s M ?h1 = ?h1[M := xor_key (h ! K) n ?s ?u]"
      using xor_key_h_refines [of M ?h1 K n ?s] assms(1,3) unfolding k m by simp
    have 3: "dec_round_h K n M r h = (None, ?h1[M := xor_key (h ! K) n ?s ?u])"
      using False by (simp add: dec_round_h_def 1 2)
    have 4: "dec_round (h ! K) n r (h ! M) = Inr (xor_key (h ! K) n ?s ?u)"
      using False by (simp add: dec_round_def)
    show ?thesis
      unfolding 3 4 refines_step_def using assms(1) by (simp add: nth_append)
  qed
qed

lemma for_rounds_h_refines:
  assumes step: "\<And>r h. C < length h \<Longrightarrow> K < length h \<Longrightarrow>
      refines_step C h (body_h r h) (body (h ! K) r (h ! C))"
    and "C < length h" "K < length h" "K \<noteq> C"
  shows "refines_step C h (for_rounds_h body_h rs h) (for_rounds (body (h ! K)) rs (h ! C))"
  using assms(2,3)
proof (induction rs arbitrary: h)
  case Nil
  then show ?case by (simp add: refines_step_def)
next
  case (Cons r rs)
  obtain eo h1 where b: "body_h r h = (eo, h1)" by (cases "body_h r h")
  from step [OF Cons.prems, of r] b
  have s: "length h \<le> length h1" "\<forall>a<length h. a \<noteq> C \<longrightarrow> h1 ! a = h ! a"
      "case eo of None \<Rightarrow> body (h ! K) r (h ! C) = Inr (h1 ! C)
         | Some e \<Rightarrow> body (h ! K) r (h ! C) = Inl e"
    by (simp_all add: refines_step_def)
  show ?case
  proof (cases eo)
    case (Some e)
    with b s show ?thesis by (simp add: refines_step_def)
  next
    case None
    have l: "C < length h1" "K < length h1" using Cons.prems s(1) by simp_all
    have k: "h1 ! K = h ! K" using s(2) Cons.prems(2) assms(4) by simp
    from None s(3) have p: "body (h ! K) r (h ! C) = Inr (h1 ! C)" by simp
    obtain eo2 h2 where f: "for_rounds_h body_h rs h1 = (eo2, h2)"
      by (cases "for_rounds_h body_h rs h1")
    from Cons.IH [OF l] have
      "refines_step C h1 (eo2, h2) (for_rounds (body (h ! K)) rs (h1 ! C))"
      unfolding k f .
    then have t: "length h1 \<le> length h2" "\<forall>a<length h1. a \<noteq> C \<longrightarrow> h2 ! a = h1 ! a"
        "case eo2 of None \<Rightarrow> for_rounds (body (h ! K)) rs (h1 ! C) = Inr (h2 ! C)
           | Some e \<Rightarrow> for_rounds (body (h ! K)) rs (h1 ! C) = Inl e"
      by (simp_all add: refines_step_def)
    have 1: "length h \<le> length h2" using s(1) t(1) by simp
    have 2: "\<forall>a<length h. a \<noteq> C \<longrightarrow> h2 ! a = h ! a"
    proof (intro allI impI)
      fix a assume a: "a < length h" "a \<noteq> C"
      then have "h2 ! a = h1 ! a" using t(2) s(1) by simp
      also have "\<dots> = h ! a" using s(2) a by simp
      finally show "h2 ! a = h ! a" .
    qed
    have 3: "for_rounds_h body_h (r # rs) h = (eo2, h2)"
      using b None f by simp
    have 4: "for_rounds (body (h ! K)) (r # rs) (h ! C) = for_rounds (body (h ! K)) rs (h1 ! C)"
      using p by simp
    show ?thesis
      unfolding 3 4 refines_step_def using 1 2 t(3) by simp
  qed
qed

lemma ENC_h_refines:
  assumes "K < length h" "M < length h" "ENC_h K M h = (res, h')"
  shows "take (length h) h' = h \<and>
         (case res of Inl e \<Rightarrow> ENC (h ! K) (h ! M) = Inl e
            | Inr C \<Rightarrow> length h \<le> C \<and> C < length h' \<and> ENC (h ! K) (h ! M) = Inr (h' ! C))"
proof (cases "length (h ! K) = length (h ! M)")
  case False
  with assms(3) show ?thesis by (auto simp: ENC_h_def ENC_def)
next
  case True
  let ?n = "length (h ! M)"
  let ?C = "length h"
  let ?h0 = "h @ [h ! M]"
  obtain eo h1 where r: "for_rounds_h (enc_round_h K ?n ?C) [0..<6] ?h0 = (eo, h1)"
    by (cases "for_rounds_h (enc_round_h K ?n ?C) [0..<6] ?h0")
  have c: "?C < length ?h0" and k: "K < length ?h0" and ne: "K \<noteq> ?C"
    using assms(1) by simp_all
  have hk: "?h0 ! K = h ! K" using assms(1) by (simp add: nth_append)
  have hc: "?h0 ! ?C = h ! M" by simp
  have "refines_step ?C ?h0 (for_rounds_h (enc_round_h K ?n ?C) [0..<6] ?h0)
          (for_rounds (enc_round (?h0 ! K) ?n) [0..<6] (?h0 ! ?C))"
    by (rule for_rounds_h_refines [OF _ c k ne]) (rule enc_round_h_refines, simp, rule ne)
  then have s: "length ?h0 \<le> length h1" "\<forall>a<length ?h0. a \<noteq> ?C \<longrightarrow> h1 ! a = ?h0 ! a"
      "case eo of None \<Rightarrow> for_rounds (enc_round (h ! K) ?n) [0..<6] (h ! M) = Inr (h1 ! ?C)
         | Some e \<Rightarrow> for_rounds (enc_round (h ! K) ?n) [0..<6] (h ! M) = Inl e"
    unfolding r hk hc refines_step_def prod.case by blast+
  have frame: "take (length h) h1 = h"
  proof (rule nth_equalityI)
    show "length (take (length h) h1) = length h" using s(1) by simp
  next
    fix a assume "a < length (take (length h) h1)"
    then have a: "a < length h" by simp
    with s(2) have "h1 ! a = ?h0 ! a" by simp
    with a show "take (length h) h1 ! a = h ! a" by (simp add: nth_append)
  qed
  have res: "(res, h') = (case eo of Some e \<Rightarrow> (Inl e, h1) | None \<Rightarrow> (Inr ?C, h1))"
    using assms(3) True r
    by (simp add: ENC_h_def copy_def Let_def del: upt.simps upt_Suc split: option.splits)
  have pure: "ENC (h ! K) (h ! M) = for_rounds (enc_round (h ! K) ?n) [0..<6] (h ! M)"
    using True by (simp add: ENC_def Let_def del: upt.simps upt_Suc)
  show ?thesis
  proof (cases eo)
    case None
    with res s frame pure show ?thesis by simp
  next
    case (Some e)
    with res s frame pure show ?thesis by simp
  qed
qed

lemma DEC_h_refines:
  assumes "K < length h" "C < length h" "DEC_h K C h = (res, h')"
  shows "take (length h) h' = h \<and>
         (case res of Inl e \<Rightarrow> DEC (h ! K) (h ! C) = Inl e
            | Inr M \<Rightarrow> length h \<le> M \<and> M < length h' \<and> DEC (h ! K) (h ! C) = Inr (h' ! M))"
proof (cases "length (h ! K) = length (h ! C)")
  case False
  with assms(3) show ?thesis by (auto simp: DEC_h_def DEC_def)
next
  case True
  let ?n = "length (h ! C)"
  let ?M = "length h"
  let ?h0 = "h @ [h ! C]"
  let ?rs = "rev [0..<6]"
  obtain eo h1 where r: "for_rounds_h (dec_round_h K ?n ?M) ?rs ?h0 = (eo, h1)"
    by (cases "for_rounds_h (dec_round_h K ?n ?M) ?rs ?h0")
  have c: "?M < length ?h0" and k: "K < length ?h0" and ne: "K \<noteq> ?M"
    using assms(1) by simp_all
  have hk: "?h0 ! K = h ! K" using assms(1) by (simp add: nth_append)
  have hc: "?h0 ! ?M = h ! C" by simp
  have "refines_step ?M ?h0 (for_rounds_h (dec_round_h K ?n ?M) ?rs ?h0)
          (for_rounds (dec_round (?h0 ! K) ?n) ?rs (?h0 ! ?M))"
    by (rule for_rounds_h_refines [OF _ c k ne]) (rule dec_round_h_refines, simp, simp, rule ne)
  then have s: "length ?h0 \<le> length h1" "\<forall>a<length ?h0. a \<noteq> ?M \<longrightarrow> h1 ! a = ?h0 ! a"
      "case eo of None \<Rightarrow> for_rounds (dec_round (h ! K) ?n) ?rs (h ! C) = Inr (h1 ! ?M)
         | Some e \<Rightarrow> for_rounds (dec_round (h ! K) ?n) ?rs (h ! C) = Inl e"
    unfolding r hk hc refines_step_def prod.case by blast+
  have frame: "take (length h) h1 = h"
  proof (rule nth_equalityI)
    show "length (take (length h) h1) = length h" using s(1) by simp
  next
    fix a assume "a < length (take (length h) h1)"
    then have a: "a < length h" by simp
    with s(2) have "h1 ! a = ?h0 ! a" by simp
    with a show "take (length h) h1 ! a = h ! a" by (simp add: nth_append)
  qed
  have res: "(res, h') = (case eo of Some e \<Rightarrow> (Inl e, h1) | None \<Rightarrow> (Inr ?M, h1))"
    using assms(3) True r
    by (simp add: DEC_h_def copy_def Let_def del: upt.simps upt_Suc split: option.splits)
  have pure: "DEC (h ! K) (h ! C) = for_rounds (dec_round (h ! K) ?n) ?rs (h ! C)"
    using True by (simp add: DEC_def Let_def del: upt.simps upt_Suc)
  show ?thesis
  proof (cases eo)
    case None
    with res s frame pure show ?thesis by simp
  next
    case (Some e)
    with res s frame pure show ?thesis by simp
  qed
qed

section \<open>The claims of the specification\<close>

text \<open>
  Claim C1 (round-trip law): for every key and message of the same length,
  decrypting the ciphertext with the same key gives the message back. The code does not
  do this for a length that is a multiple of 15, where the permutation step overwrites
  positions: with the all-zero key of 60 bits, the message that has a single 1 at
  position 0 is encrypted to the all-zero ciphertext, and that ciphertext is decrypted to
  the all-zero message. (The law holds for every positive length that is not a multiple of
  15, lemma \<open>DEC_ENC\<close>; for every key of 60 bits two messages share a ciphertext, lemma
  \<open>ENC_collision_60\<close>.)
\<close>

theorem round_trip_fails_at_60:
  "ENC (replicate 60 0) (1 # replicate 59 0) = Inr (replicate 60 0)
   \<and> DEC (replicate 60 0) (replicate 60 0) = Inr (replicate 60 0)
   \<and> replicate 60 0 \<noteq> (1 # replicate 59 (0::int))"
  by code_simp

text \<open>
  Claim C2 (permutation bijectivity): for every block length \<open>n = 4 * length seed\<close>,
  \<open>n \<ge> 1\<close>, and every round, the position map \<open>i \<mapsto> (i * mult + r * 7) mod n\<close> visits each
  position exactly once, also when \<open>n\<close> is a multiple of 15. In the code the multiplier for
  \<open>n = 60\<close> (a seed of 15 characters) is 5, and the positions 0 and 12 are both mapped to
  position 0 in round 0: the map is not injective. (It is a bijection for every positive
  \<open>n\<close> that is not a multiple of 15, lemma \<open>bij_betw_new_pos\<close>, and for no multiple of
  15, lemma \<open>not_inj_on_new_pos\<close>.)
\<close>

theorem new_pos_collides_at_60:
  "mult 60 = 5 \<and> new_pos 60 0 0 = 0 \<and> new_pos 60 0 12 = 0
   \<and> \<not> distinct (map (new_pos 60 0) [0..<60])"
  by code_simp

text \<open>
  Claim C3 (zero-length case): \<^verbatim>\<open>GEN\<close> on the empty seed returns the empty key, and
  \<^verbatim>\<open>ENC\<close> and \<^verbatim>\<open>DEC\<close> on an empty key and empty data return the empty list without
  an error. The first part holds (lemma \<open>GEN_empty\<close>); but \<^verbatim>\<open>ENC\<close> and \<^verbatim>\<open>DEC\<close>
  compute \<^verbatim>\<open>(r * 11) % n\<close> with \<open>n = 0\<close> in their first round and raise
  \<^verbatim>\<open>ZeroDivisionError\<close>.
\<close>

theorem zero_length_raises:
  "ENC [] [] = Inl ZeroDivisionError \<and> DEC [] [] = Inl ZeroDivisionError"
  by code_simp

text \<open>
  Claim C4 (length mismatch): \<^verbatim>\<open>ENC\<close> and \<^verbatim>\<open>DEC\<close> fail with the length error (the
  \<^verbatim>\<open>ValueError\<close> of lines 58 and 93) exactly when the length of the key differs from the
  length of the data. The result is then the exception alone: there is no output, truncated,
  padded or partial.
\<close>

theorem length_mismatch_iff:
  "(ENC K M = Inl ValueError \<longleftrightarrow> length K \<noteq> length M)
   \<and> (DEC K C = Inl ValueError \<longleftrightarrow> length K \<noteq> length C)"
  using ENC_ValueError_iff [of K M] DEC_ValueError_iff [of K C] by simp

theorem length_mismatch_iff_witness:
  "ENC [1, 0] [1] = Inl ValueError \<and> DEC [1, 0] [1, 1, 0] = Inl ValueError
   \<and> ENC [1, 0] [0, 1] \<noteq> Inl ValueError \<and> DEC [1, 0] [0, 1] \<noteq> Inl ValueError"
  using length_mismatch_iff [of "[1, 0]" "[1]" "[1, 1, 0]"]
    length_mismatch_iff [of "[1, 0]" "[0, 1]" "[0, 1]"]
  by simp

text \<open>
  Claim C5 (KeyExpander): for every seed, \<^verbatim>\<open>GEN\<close> returns exactly \<open>4 * length seed\<close>
  bits, and they are the first \<open>4 * length seed\<close> bits of the key stream: the digest of the
  seed alone, then the digests of the seed followed by the decimal counter 1, 2, ..., each
  byte most significant bit first. This fails for a seed that UTF-8 cannot encode: line 25
  raises \<^verbatim>\<open>UnicodeEncodeError\<close> for the seed that consists of the lone surrogate
  \<open>0xD800\<close>, and no key is returned.
\<close>

theorem GEN_lone_surrogate_raises:
  "GEN toy_hash [0xD800] = Some (Inl UnicodeEncodeError)"
  by code_simp

text \<open>
  Claim C5, amended: for every seed that UTF-8 can encode, \<^verbatim>\<open>GEN\<close> returns exactly
  \<open>4 * length seed\<close> bits, the first \<open>4 * length seed\<close> bits of the key stream; for every
  other seed it raises \<^verbatim>\<open>UnicodeEncodeError\<close>. The digest of SHA-256 has 32 bytes; any
  number \<open>k\<close> of blocks that holds enough bits gives the same key.
\<close>

theorem GEN_key_expander:
  assumes "\<forall>bs. length (H bs) = 32"
  shows "(encodable seed \<longrightarrow>
            (\<exists>key. GEN H seed = Some (Inr key) \<and> length key = 4 * length seed
               \<and> (\<forall>k. 4 * length seed \<le> 256 * k
                     \<longrightarrow> key = take (4 * length seed) (key_stream H seed k))))
         \<and> (\<not> encodable seed \<longrightarrow> GEN H seed = Some (Inl UnicodeEncodeError))"
proof (intro conjI impI)
  assume enc: "encodable seed"
  have len: "length (key_stream H seed k) = 256 * k" for k
    using assms by (simp add: length_key_stream)
  have gen: "GEN H seed = Some (Inr (take (4 * length seed) (key_stream H seed k)))"
    if "4 * length seed \<le> 256 * k" for k
    using that enc by (simp add: GEN_closed len)
  let ?key = "take (4 * length seed) (key_stream H seed (length seed))"
  have 1: "GEN H seed = Some (Inr ?key)" by (rule gen) simp
  have 2: "length ?key = 4 * length seed" by (simp add: len)
  have 3: "?key = take (4 * length seed) (key_stream H seed k)"
    if "4 * length seed \<le> 256 * k" for k
    using gen [OF that] 1 by simp
  from 1 2 3 show "\<exists>key. GEN H seed = Some (Inr key) \<and> length key = 4 * length seed
      \<and> (\<forall>k. 4 * length seed \<le> 256 * k
            \<longrightarrow> key = take (4 * length seed) (key_stream H seed k))"
    by blast
next
  assume "\<not> encodable seed"
  then show "GEN H seed = Some (Inl UnicodeEncodeError)" by (rule GEN_raises)
qed

text \<open>
  At a seed of 65 characters the key has 260 bits and needs the block of counter 1: its
  bits 248 to 255 are the last byte of block 0 (255), its bits 256 to 259 the four most
  significant bits of the first byte of block 1 (115, in binary 01110011).
\<close>

theorem GEN_key_expander_witness:
  "GEN toy_hash (replicate 65 97)
     = Some (Inr (take 260 (key_stream toy_hash (replicate 65 97) 2)))
   \<and> take 8 (take 260 (key_stream toy_hash (replicate 65 97) 2)) = [1, 0, 1, 0, 0, 0, 1, 0]
   \<and> drop 248 (take 260 (key_stream toy_hash (replicate 65 97) 2))
       = [1, 1, 1, 1, 1, 1, 1, 1, 0, 1, 1, 1]
   \<and> GEN toy_hash [97, 0xDFFF] = Some (Inl UnicodeEncodeError)"
proof -
  have h: "\<forall>bs. length (toy_hash bs) = 32" by (simp add: length_toy_hash)
  have e: "encodable (replicate 65 97)" by code_simp
  have n: "\<not> encodable [97, 0xDFFF]" by code_simp
  have l: "4 * length (replicate 65 (97 :: int)) = 260" by simp
  have b: "take 8 (take 260 (key_stream toy_hash (replicate 65 97) 2)) = [1, 0, 1, 0, 0, 0, 1, 0]"
    "drop 248 (take 260 (key_stream toy_hash (replicate 65 97) 2))
       = [1, 1, 1, 1, 1, 1, 1, 1, 0, 1, 1, 1]"
    by code_simp+
  from GEN_key_expander [OF h, of "replicate 65 97"] e obtain key where
    k: "GEN toy_hash (replicate 65 97) = Some (Inr key)"
      "\<forall>k. 4 * length (replicate 65 (97 :: int)) \<le> 256 * k
         \<longrightarrow> key = take (4 * length (replicate 65 (97 :: int)))
               (key_stream toy_hash (replicate 65 97) k)"
    by blast
  from k(2) have "key = take (4 * length (replicate 65 (97 :: int)))
      (key_stream toy_hash (replicate 65 97) 2)"
    by simp
  then have 1: "GEN toy_hash (replicate 65 97)
      = Some (Inr (take 260 (key_stream toy_hash (replicate 65 97) 2)))"
    using k(1) unfolding l by simp
  from GEN_key_expander [OF h, of "[97, 0xDFFF]"] n
  have 2: "GEN toy_hash [97, 0xDFFF] = Some (Inl UnicodeEncodeError)" by blast
  from 1 2 b show ?thesis by blast
qed

text \<open>
  Claim C6 (length preservation): whenever \<^verbatim>\<open>ENC\<close> or \<^verbatim>\<open>DEC\<close> returns a list, the
  list is as long as the data, which is as long as the key.
\<close>

theorem length_preserved:
  "(ENC K M = Inr C \<longrightarrow> length C = length M \<and> length K = length M)
   \<and> (DEC K C' = Inr M' \<longrightarrow> length M' = length C' \<and> length K = length C')"
  using ENC_Inr_length [of K M C] DEC_Inr_length [of K C' M'] by simp

theorem length_preserved_witness:
  "ENC [1, 0, 1, 1, 0, 0, 1, 0] [0, 1, 1, 0, 1, 0, 0, 1] = Inr [1, 1, 1, 0, 1, 1, 1, 0]
   \<and> length [1, 1, 1, 0, 1, 1, 1, 0 :: int] = length [0, 1, 1, 0, 1, 0, 0, 1 :: int]
   \<and> DEC [1, 0, 1, 1, 0, 0, 1, 0] [1, 1, 1, 0, 1, 1, 1, 0] = Inr [0, 1, 1, 0, 1, 0, 0, 1]
   \<and> length [0, 1, 1, 0, 1, 0, 0, 1 :: int] = length [1, 1, 1, 0, 1, 1, 1, 0 :: int]"
proof -
  have e: "ENC [1, 0, 1, 1, 0, 0, 1, 0] [0, 1, 1, 0, 1, 0, 0, 1] = Inr [1, 1, 1, 0, 1, 1, 1, 0]"
    by code_simp
  have d: "DEC [1, 0, 1, 1, 0, 0, 1, 0] [1, 1, 1, 0, 1, 1, 1, 0] = Inr [0, 1, 1, 0, 1, 0, 0, 1]"
    by code_simp
  from e d length_preserved [of "[1, 0, 1, 1, 0, 0, 1, 0]" "[0, 1, 1, 0, 1, 0, 0, 1]"
      "[1, 1, 1, 0, 1, 1, 1, 0]" "[1, 1, 1, 0, 1, 1, 1, 0]" "[0, 1, 1, 0, 1, 0, 0, 1]"]
  show ?thesis by blast
qed

text \<open>
  Claim C7 (the scenario of seed "ab"): \<^verbatim>\<open>GEN("ab")\<close> returns a key of exactly 8 bits;
  for \<open>n = 8\<close> the multiplier is 3; the position map of round 0 sends the positions
  0, ..., 7 to 0, 3, 6, 1, 4, 7, 2, 5 and is a bijection; and the permutation step of
  \<^verbatim>\<open>ENC\<close> followed by the inverse step of \<^verbatim>\<open>DEC\<close> leaves every list of length 8 as
  it was.
\<close>

theorem scenario_ab:
  assumes "\<forall>bs. length (H bs) = 32"
  shows "(\<exists>key. GEN H (py_str ''ab'') = Some (Inr key) \<and> length key = 8)
         \<and> mult 8 = 3
         \<and> map (new_pos 8 0) [0..<8] = [0, 3, 6, 1, 4, 7, 2, 5]
         \<and> bij_betw (new_pos 8 0) {0..<8} {0..<8}
         \<and> (\<forall>xs. length xs = 8 \<longrightarrow> unpermute 8 0 (permute 8 0 xs) = xs)"
proof -
  have s: "length (key_stream H (py_str ''ab'') 1) = 256"
    using assms by (simp add: length_key_stream)
  have l: "length (py_str ''ab'') = 2" by (simp add: py_str_def)
  have "4 * length (py_str ''ab'') \<le> length (key_stream H (py_str ''ab'') 1)"
    unfolding s l by simp
  then have "GEN H (py_str ''ab'')
      = Some (Inr (take (4 * length (py_str ''ab'')) (key_stream H (py_str ''ab'') 1)))"
    by (rule GEN_closed [OF encodable_py_str])
  then have 1: "\<exists>key. GEN H (py_str ''ab'') = Some (Inr key) \<and> length key = 8"
    using s l by simp
  have 2: "mult 8 = 3" by (simp add: mult_def)
  have 3: "map (new_pos 8 0) [0..<8] = [0, 3, 6, 1, 4, 7, 2, 5]" by code_simp
  have n15: "\<not> 15 dvd (8::nat)" by simp
  have 4: "bij_betw (new_pos 8 0) {0..<8} {0..<8}"
    by (rule bij_betw_new_pos) (simp_all add: n15)
  have 5: "unpermute 8 0 (permute 8 0 xs) = xs" if "length xs = 8" for xs
    using that by (intro unpermute_permute inj_on_new_pos n15) simp_all
  from 1 2 3 4 5 show ?thesis by blast
qed

theorem scenario_ab_witness:
  "(\<exists>key. GEN toy_hash (py_str ''ab'') = Some (Inr key) \<and> length key = 8)
   \<and> unpermute 8 0 (permute 8 0 [0, 1, 2, 3, 4, 5, 6, 7]) = [0, 1, 2, 3, 4, 5, 6, 7]"
proof -
  have h: "\<forall>bs. length (toy_hash bs) = 32" by (simp add: length_toy_hash)
  have l: "length [0, 1, 2, 3, 4, 5, 6, 7 :: int] = 8" by simp
  from scenario_ab [OF h] l show ?thesis by blast
qed

text \<open>
  Claim C8 (no mutation of the inputs): a call of \<^verbatim>\<open>ENC\<close> or \<^verbatim>\<open>DEC\<close> leaves every
  list object that existed before the call as it was, the key and the data among them
  (also when both are the same object); the list it returns is a new object; and what it
  returns or raises is determined by the values of its two arguments alone, so that
  nothing is kept from one call to the next.
\<close>

theorem inputs_not_mutated:
  assumes "K < length h" "D < length h"
  shows "(case ENC_h K D h of (res, h') \<Rightarrow>
            take (length h) h' = h \<and>
            (case res of Inl e \<Rightarrow> ENC (h ! K) (h ! D) = Inl e
               | Inr C \<Rightarrow> length h \<le> C \<and> C < length h' \<and> ENC (h ! K) (h ! D) = Inr (h' ! C)))
         \<and> (case DEC_h K D h of (res, h') \<Rightarrow>
            take (length h) h' = h \<and>
            (case res of Inl e \<Rightarrow> DEC (h ! K) (h ! D) = Inl e
               | Inr M \<Rightarrow> length h \<le> M \<and> M < length h' \<and> DEC (h ! K) (h ! D) = Inr (h' ! M)))"
proof -
  obtain r1 h1 where 1: "ENC_h K D h = (r1, h1)" by (cases "ENC_h K D h")
  obtain r2 h2 where 2: "DEC_h K D h = (r2, h2)" by (cases "DEC_h K D h")
  from ENC_h_refines [OF assms 1] DEC_h_refines [OF assms 2] show ?thesis
    unfolding 1 2 by simp
qed

theorem inputs_not_mutated_witness:
  "take 2 (snd (ENC_h 0 1 [[1, 0, 1, 1, 0, 0, 1, 0], [0, 1, 1, 0, 1, 0, 0, 1]]))
       = [[1, 0, 1, 1, 0, 0, 1, 0], [0, 1, 1, 0, 1, 0, 0, 1]]
   \<and> (\<exists>C. fst (ENC_h 0 1 [[1, 0, 1, 1, 0, 0, 1, 0], [0, 1, 1, 0, 1, 0, 0, 1]]) = Inr C
          \<and> 2 \<le> C
          \<and> snd (ENC_h 0 1 [[1, 0, 1, 1, 0, 0, 1, 0], [0, 1, 1, 0, 1, 0, 0, 1]]) ! C
                = [1, 1, 1, 0, 1, 1, 1, 0])
   \<and> take 2 (snd (DEC_h 0 0 [[1, 0, 1, 1, 0, 0, 1, 0], [0, 1, 1, 0, 1, 0, 0, 1]]))
       = [[1, 0, 1, 1, 0, 0, 1, 0], [0, 1, 1, 0, 1, 0, 0, 1]]"
proof -
  let ?h = "[[1, 0, 1, 1, 0, 0, 1, 0], [0, 1, 1, 0, 1, 0, 0, 1 :: int]]"
  have a: "(0::nat) < length ?h" "(1::nat) < length ?h" by simp_all
  have e: "ENC (?h ! 0) (?h ! 1) = Inr [1, 1, 1, 0, 1, 1, 1, 0]" by code_simp
  obtain r1 h1 where 1: "ENC_h 0 1 ?h = (r1, h1)" by (cases "ENC_h 0 1 ?h")
  obtain r2 h2 where 2: "DEC_h 0 0 ?h = (r2, h2)" by (cases "DEC_h 0 0 ?h")
  from inputs_not_mutated [OF a(1) a(2)] have
    f1: "take (length ?h) h1 = ?h"
    and c1: "case r1 of Inl e \<Rightarrow> ENC (?h ! 0) (?h ! 1) = Inl e
       | Inr C \<Rightarrow> length ?h \<le> C \<and> C < length h1 \<and> ENC (?h ! 0) (?h ! 1) = Inr (h1 ! C)"
    unfolding 1 prod.case by blast+
  from inputs_not_mutated [OF a(1) a(1)] have f2: "take (length ?h) h2 = ?h"
    unfolding 2 prod.case by blast
  from c1 e obtain C where "r1 = Inr C" "2 \<le> C" "h1 ! C = [1, 1, 1, 0, 1, 1, 1, 0]"
    by (cases r1) simp_all
  with f1 f2 show ?thesis
    unfolding 1 2 by (simp add: numeral_2_eq_2)
qed

text \<open>
  Claim C9 (affine in the message): for a key and two messages of the same length
  \<open>n \<ge> 1\<close>, the ciphertext of the bitwise XOR of the messages is the XOR of the two
  ciphertexts and of the ciphertext of the all-zero message. The key contributes only that
  last, additive part: each ciphertext is the message re-indexed by \<open>enc_src n\<close>, which does
  not depend on the key, XORed with the ciphertext of the all-zero message.
\<close>

theorem ENC_xor_affine:
  assumes "length K = n" "length M1 = n" "length M2 = n" "1 \<le> n"
  shows "\<exists>C1 C2 C0. ENC K M1 = Inr C1 \<and> ENC K M2 = Inr C2 \<and> ENC K (replicate n 0) = Inr C0
           \<and> ENC K (xor_lists M1 M2) = Inr (xor_lists (xor_lists C1 C2) C0)
           \<and> C1 = xor_lists (map ((!) M1) (enc_src n)) C0
           \<and> C2 = xor_lists (map ((!) M2) (enc_src n)) C0"
proof -
  have n: "0 < n" using assms(4) by simp
  from ENC_affine [OF assms] obtain C1 C2 C0 where
    a: "ENC K M1 = Inr C1" "ENC K M2 = Inr C2" "ENC K (replicate n 0) = Inr C0"
      "ENC K (xor_lists M1 M2) = Inr (xor_lists (xor_lists C1 C2) C0)"
    by blast
  from ENC_gather [OF assms(1,2) n] a(1,3)
  have 1: "C1 = xor_lists (map ((!) M1) (enc_src n)) C0" by simp
  from ENC_gather [OF assms(1,3) n] a(2,3)
  have 2: "C2 = xor_lists (map ((!) M2) (enc_src n)) C0" by simp
  from a 1 2 show ?thesis by blast
qed

theorem ENC_xor_affine_witness:
  "ENC [1, 0, 1, 1, 0, 0, 1, 0] (xor_lists [0, 1, 1, 0, 1, 0, 0, 1] [1, 1, 0, 0, 0, 1, 0, 1])
     = Inr (xor_lists (xor_lists [1, 1, 1, 0, 1, 1, 1, 0] [1, 0, 0, 0, 1, 0, 1, 1])
              [1, 0, 1, 0, 0, 1, 0, 1])"
proof -
  let ?K = "[1, 0, 1, 1, 0, 0, 1, 0 :: int]"
  have l: "length ?K = 8" "length [0, 1, 1, 0, 1, 0, 0, 1 :: int] = 8"
    "length [1, 1, 0, 0, 0, 1, 0, 1 :: int] = 8" "(1::nat) \<le> 8"
    by simp_all
  have e: "ENC ?K [0, 1, 1, 0, 1, 0, 0, 1] = Inr [1, 1, 1, 0, 1, 1, 1, 0]"
    "ENC ?K [1, 1, 0, 0, 0, 1, 0, 1] = Inr [1, 0, 0, 0, 1, 0, 1, 1]"
    "ENC ?K (replicate 8 0) = Inr [1, 0, 1, 0, 0, 1, 0, 1]"
    by code_simp+
  from ENC_xor_affine [OF l] e show ?thesis by auto
qed

text \<open>
  Claim C10 (bits stay bits): every element of the key that \<^verbatim>\<open>GEN\<close> returns is 0 or 1
  (for a hash with digests of 32 bytes, as SHA-256 has; a key is returned for every seed
  that UTF-8 can encode); and when every element of the key and of the data is 0 or 1, so
  is every element of a list that \<^verbatim>\<open>ENC\<close> or \<^verbatim>\<open>DEC\<close> returns.
\<close>

theorem bits_invariant:
  "((\<forall>bs. length (H bs) = 32) \<longrightarrow>
      (encodable seed \<longrightarrow> (\<exists>key. GEN H seed = Some (Inr key) \<and> set key \<subseteq> {0, 1}))
      \<and> (\<forall>key. GEN H seed = Some (Inr key) \<longrightarrow> set key \<subseteq> {0, 1}))
   \<and> (set K \<subseteq> {0, 1} \<and> set M \<subseteq> {0, 1} \<and> ENC K M = Inr C \<longrightarrow> set C \<subseteq> {0, 1})
   \<and> (set K \<subseteq> {0, 1} \<and> set C' \<subseteq> {0, 1} \<and> DEC K C' = Inr M' \<longrightarrow> set M' \<subseteq> {0, 1})"
proof -
  have 1: "\<exists>key. GEN H seed = Some (Inr key) \<and> set key \<subseteq> {0, 1}"
    if h: "\<forall>bs. length (H bs) = 32" and enc: "encodable seed"
  proof -
    have "length (key_stream H seed (length seed)) = 256 * length seed"
      using h by (simp add: length_key_stream)
    then have "GEN H seed
        = Some (Inr (take (4 * length seed) (key_stream H seed (length seed))))"
      by (intro GEN_closed enc) simp
    moreover have "set (take (4 * length seed) (key_stream H seed (length seed))) \<subseteq> {0, 1}"
      using set_take_subset set_key_stream by (rule subset_trans)
    ultimately show ?thesis by blast
  qed
  have 2: "set key \<subseteq> {0, 1}"
    if h: "\<forall>bs. length (H bs) = 32" and g: "GEN H seed = Some (Inr key)" for key
  proof -
    from g have "encodable seed" by (rule GEN_Inr_encodable)
    with 1 [OF h] g show ?thesis by auto
  qed
  from 1 2 ENC_bits [of K M C] DEC_bits [of K C' M'] show ?thesis by blast
qed

theorem bits_invariant_witness:
  "GEN toy_hash (py_str ''ab'') = Some (Inr [0, 1, 1, 0, 0, 1, 0, 0])
   \<and> set [0, 1, 1, 0, 0, 1, 0, 0] \<subseteq> {0, 1 :: int}
   \<and> ENC [1, 0, 1, 1, 0, 0, 1, 0] [0, 1, 1, 0, 1, 0, 0, 1] = Inr [1, 1, 1, 0, 1, 1, 1, 0]
   \<and> set [1, 1, 1, 0, 1, 1, 1, 0] \<subseteq> {0, 1 :: int}
   \<and> DEC [1, 0, 1, 1, 0, 0, 1, 0] [1, 1, 1, 0, 1, 1, 1, 0] = Inr [0, 1, 1, 0, 1, 0, 0, 1]
   \<and> set [0, 1, 1, 0, 1, 0, 0, 1] \<subseteq> {0, 1 :: int}"
proof -
  let ?K = "[1, 0, 1, 1, 0, 0, 1, 0 :: int]"
  let ?M = "[0, 1, 1, 0, 1, 0, 0, 1 :: int]"
  let ?C = "[1, 1, 1, 0, 1, 1, 1, 0 :: int]"
  let ?key = "[0, 1, 1, 0, 0, 1, 0, 0 :: int]"
  have h: "\<forall>bs. length (toy_hash bs) = 32" by (simp add: length_toy_hash)
  have g: "GEN toy_hash (py_str ''ab'') = Some (Inr ?key)" by code_simp
  have b: "set ?K \<subseteq> {0, 1}" "set ?M \<subseteq> {0, 1}" by simp_all
  have e: "ENC ?K ?M = Inr ?C" by code_simp
  have d: "DEC ?K ?C = Inr ?M" by code_simp
  have k: "set ?key \<subseteq> {0, 1}"
    using bits_invariant [of toy_hash "py_str ''ab''" ?K ?M ?C ?C ?M] h g by blast
  have c: "set ?C \<subseteq> {0, 1}"
    using bits_invariant [of toy_hash "py_str ''ab''" ?K ?M ?C ?C ?M] b e by blast
  have m: "set ?M \<subseteq> {0, 1}"
    using bits_invariant [of toy_hash "py_str ''ab''" ?K ?C ?M ?C ?M] b c d by blast
  from g k e c d m show ?thesis by blast
qed

end
